theory Spec2Isabelle
  imports Complex_Main
begin

text \<open>
  A model of the join-and-aggregate core of \<open>rvtools_extractor.py\<close> (class
  \<open>RVToolsComprehensiveExtractor\<close>): the Unit Normalizer \<open>convert_mib_to_gb\<close>, the
  Aggregator \<open>aggregate_vm_data\<close>, the Merger \<open>merge_all_vm_data\<close>, the Output Shaper
  (\<open>filter_output_columns\<close>, \<open>apply_power_filter\<close>) and the part of \<open>process\<close> that
  chains them. The pandas operations the source calls are written out as functions on
  an explicit representation of a data frame; an exception is a value \<open>Inl e\<close>.
\<close>

section \<open>Python strings\<close>

text \<open>
  Column names and cell texts are Python \<open>str\<close> values, modelled as \<open>string\<close>.
  \<open>lower\<close> is \<open>str.lower()\<close> on the ASCII letters, \<open>contains sub s\<close> is \<open>sub in s\<close>
  and \<open>replace old new s\<close> is \<open>s.replace(old, new)\<close> for a non-empty \<open>old\<close>
  (the source only ever passes the literals \<open>' MiB'\<close>, \<open>'_MiB'\<close>, \<open>'MiB'\<close>,
  \<open>' MB'\<close>, \<open>'_MB'\<close>, \<open>'MB'\<close>).
\<close>

definition lower_char :: "char \<Rightarrow> char" where
  "lower_char c =
     (case map_of (zip ''ABCDEFGHIJKLMNOPQRSTUVWXYZ'' ''abcdefghijklmnopqrstuvwxyz'') c of
        Some l \<Rightarrow> l
      | None \<Rightarrow> c)"

definition lower :: "string \<Rightarrow> string" where
  "lower s = map lower_char s"

fun starts_with :: "string \<Rightarrow> string \<Rightarrow> bool" where
  "starts_with s [] = True"
| "starts_with [] (p # ps) = False"
| "starts_with (c # cs) (p # ps) = (c = p \<and> starts_with cs ps)"

fun contains :: "string \<Rightarrow> string \<Rightarrow> bool" where
  "contains sub [] = (sub = [])"
| "contains sub (c # cs) = (starts_with (c # cs) sub \<or> contains sub cs)"

function replace :: "string \<Rightarrow> string \<Rightarrow> string \<Rightarrow> string" where
  "replace old new [] = []"
| "replace old new (c # cs) =
     (if old \<noteq> [] \<and> starts_with (c # cs) old
      then new @ replace old new (drop (length old) (c # cs))
      else c # replace old new cs)"
  by pat_completeness auto
termination
  by (relation "measure (\<lambda>(old, new, s). length s)") (auto simp: neq_Nil_conv)


section \<open>Data frames\<close>

text \<open>
  A pandas \<open>DataFrame\<close> is an ordered list of named columns; a column is a dtype and its
  cells. \<open>read_csv\<close> yields \<open>int64\<close>/\<open>float64\<close> columns (\<open>Numeric\<close>; a missing value
  is \<open>NaN\<close>), \<open>bool\<close> columns and \<open>object\<close> columns (Python strings and missing values).
  A number cell holds the rational value of the \<open>int64\<close> or \<open>float64\<close> it stands for; the
  unit conversion is computed in float64 arithmetic (\<open>float64\<close> below), the sums and
  means of the Aggregator exactly. Column names are unique within a frame
  (\<open>distinct (columns df)\<close>) and all columns have the same number of cells (\<open>wf_table\<close>);
  theorems state these where they need them. The empty \<open>pd.DataFrame()\<close> is \<open>[]\<close>.
\<close>

datatype cell = NA | Num rat | Str string | Bool bool

datatype dtype = Numeric | Boolean | Object

type_synonym series = "dtype \<times> cell list"

type_synonym table = "(string \<times> series) list"

datatype error = TypeError | KeyError | ValueError | IndexError | AttributeError

definition columns :: "table \<Rightarrow> string list" where
  "columns df = map fst df"

definition nrows :: "table \<Rightarrow> nat" where
  "nrows df = (case df of [] \<Rightarrow> 0 | (name, (d, cs)) # rest \<Rightarrow> length cs)"

definition wf_table :: "table \<Rightarrow> bool" where
  "wf_table df = (\<forall>(name, (d, cs)) \<in> set df. length cs = nrows df)"

definition df_empty :: "table \<Rightarrow> bool" where
  "df_empty df = (df = [] \<or> nrows df = 0)"

definition cells_of :: "table \<Rightarrow> string \<Rightarrow> cell list" where
  "cells_of df name = (case map_of df name of None \<Rightarrow> [] | Some (d, cs) \<Rightarrow> cs)"

definition is_numeric_dtype :: "dtype \<Rightarrow> bool" where
  "is_numeric_dtype d = (d = Numeric \<or> d = Boolean)"

fun set_column :: "string \<Rightarrow> series \<Rightarrow> table \<Rightarrow> table" where
  "set_column name s [] = [(name, s)]"
| "set_column name s ((m, x) # df) =
     (if m = name then (name, s) # df else (m, x) # set_column name s df)"

definition drop_column :: "string \<Rightarrow> table \<Rightarrow> table" where
  "drop_column name df = filter (\<lambda>(m, x). m \<noteq> name) df"

section \<open>Unit Normalizer: \<open>convert_mib_to_gb\<close>\<close>

text \<open>
  The conversion is float64 arithmetic: \<open>(column / k).round(2)\<close>, where numpy's
  \<open>round\<close> multiplies by 100, rounds to the nearest integer with ties to even
  (\<open>rint\<close>), and divides by 100, each operation rounded to the nearest double. A cell
  value is a rational; \<open>float64 x\<close> is the double nearest to \<open>x\<close> (ties to even,
  53-bit significand, gradual underflow below \<open>2^-1022\<close>). Values stay below the largest
  double, so overflow to infinity does not occur in the model.
\<close>

definition round_half_even :: "rat \<Rightarrow> int" where
  "round_half_even x =
     (let f = \<lfloor>x\<rfloor>; d = x - of_int f
      in if d < 1 / 2 then f else if 1 / 2 < d then f + 1 else if even f then f else f + 1)"

function bit_length :: "int \<Rightarrow> int" where
  "bit_length n = (if n \<le> 0 then 0 else 1 + bit_length (n div 2))"
  by pat_completeness auto

termination
  by (relation "measure nat") auto

definition pow2 :: "int \<Rightarrow> rat" where
  "pow2 e = (if 0 \<le> e then 2 ^ nat e else 1 / 2 ^ nat (- e))"

text \<open>\<open>binary_exponent a\<close> is the \<open>e\<close> with \<open>2^e \<le> a < 2^(e+1)\<close>, for \<open>a > 0\<close>.\<close>

definition binary_exponent :: "rat \<Rightarrow> int" where
  "binary_exponent a =
     (case quotient_of a of
        (p, q) \<Rightarrow>
          let e0 = bit_length p - bit_length q
          in if pow2 e0 \<le> a then e0 else e0 - 1)"

definition float64 :: "rat \<Rightarrow> rat" where
  "float64 x =
     (if x = 0 then 0
      else let e = max (binary_exponent \<bar>x\<bar>) (- 1022); q = pow2 (e - 52)
           in of_int (round_half_even (x / q)) * q)"

definition round2 :: "rat \<Rightarrow> rat" where
  "round2 x = float64 (of_int (round_half_even (float64 (x * 100))) / 100)"

text \<open>
  \<open>(column / k).round(2)\<close> on one cell: a null stays null; a \<open>bool\<close> counts as 0 or 1;
  an integer column is converted to float64 by the division. Columns of a numeric dtype
  hold no strings.
\<close>

fun div_round :: "rat \<Rightarrow> cell \<Rightarrow> cell" where
  "div_round k (Num v) = Num (round2 (float64 (float64 v / k)))"
| "div_round k (Bool b) = Num (round2 (float64 ((if b then 1 else 0) / k)))"
| "div_round k c = NA"

definition mib_name :: "string \<Rightarrow> string" where
  "mib_name col = replace ''MiB'' ''_GB'' (replace ''_MiB'' ''_GB'' (replace '' MiB'' '' GB'' col))"

definition mb_name :: "string \<Rightarrow> string" where
  "mb_name col = replace ''MB'' ''_GB'' (replace ''_MB'' ''_GB'' (replace '' MB'' '' GB'' col))"

definition is_mib :: "string \<Rightarrow> bool" where
  "is_mib col = contains ''mib'' (lower col)"

definition is_mb :: "string \<Rightarrow> bool" where
  "is_mb col = (contains ''mb'' (lower col) \<and> \<not> contains ''mbps'' (lower col))"

definition mib_columns :: "table \<Rightarrow> string list" where
  "mib_columns df = map fst (filter (\<lambda>(col, (d, cs)). is_mib col \<and> is_numeric_dtype d) df)"

definition mb_columns :: "table \<Rightarrow> string list" where
  "mb_columns df = map fst (filter (\<lambda>(col, (d, cs)). is_mb col \<and> is_numeric_dtype d) df)"

text \<open>
  One iteration of either loop of \<open>convert_mib_to_gb\<close>: assign the converted values under
  the derived name (overwriting a column of that name in place, appending otherwise), then
  drop the source column. The name \<open>col\<close> comes from the frame's own column list, so the
  lookup \<open>converted_df[col]\<close> finds it.
\<close>

definition convert_step :: "(string \<Rightarrow> string) \<Rightarrow> rat \<Rightarrow> table \<Rightarrow> string \<Rightarrow> table" where
  "convert_step rename k df col =
     (case map_of df col of
        None \<Rightarrow> df
      | Some (d, cs) \<Rightarrow>
          drop_column col (set_column (rename col) (Numeric, map (div_round k) cs) df))"

definition mib_pass :: "table \<Rightarrow> table" where
  "mib_pass df = foldl (convert_step mib_name 1024) df (mib_columns df)"

definition mb_pass :: "table \<Rightarrow> table" where
  "mb_pass df = foldl (convert_step mb_name 1000) df (mb_columns df)"

definition convert_mib_to_gb :: "table \<Rightarrow> table" where
  "convert_mib_to_gb df = mb_pass (mib_pass df)"

section \<open>Aggregator: \<open>aggregate_vm_data\<close>\<close>

definition vm_uuid_col :: string where
  "vm_uuid_col = ''VM UUID''"

definition dropna :: "cell list \<Rightarrow> cell list" where
  "dropna cs = filter (\<lambda>c. c \<noteq> NA) cs"

text \<open>\<open>Series.unique()\<close>: the distinct values in order of first appearance.\<close>

fun unique :: "'a list \<Rightarrow> 'a list" where
  "unique [] = []"
| "unique (x # xs) = x # unique (filter (\<lambda>y. y \<noteq> x) xs)"

text \<open>
  \<open>Series.value_counts()\<close> counts the non-null values; \<open>Series.max()\<close> of an empty
  series is \<open>NaN\<close> (here \<open>None\<close>), which is not equal to 1.
\<close>

definition value_counts :: "cell list \<Rightarrow> (cell \<times> nat) list" where
  "value_counts cs = map (\<lambda>v. (v, count_list (dropna cs) v)) (unique (dropna cs))"

definition max_count :: "(cell \<times> nat) list \<Rightarrow> nat option" where
  "max_count vc = (if vc = [] then None else Some (fold max (map snd vc) 0))"

text \<open>
  \<open>groupby\<close> drops rows with a null key and sorts the groups by key. Keys of one frame
  are all numbers or all strings; the order compares those as Python does.
\<close>

fun str_less :: "string \<Rightarrow> string \<Rightarrow> bool" where
  "str_less [] [] = False"
| "str_less [] (y # ys) = True"
| "str_less (x # xs) [] = False"
| "str_less (x # xs) (y # ys) =
     ((of_char x :: nat) < of_char y \<or> (x = y \<and> str_less xs ys))"

fun cell_less :: "cell \<Rightarrow> cell \<Rightarrow> bool" where
  "cell_less (Num a) (Num b) = (a < b)"
| "cell_less (Str a) (Str b) = str_less a b"
| "cell_less (Bool a) (Bool b) = (\<not> a \<and> b)"
| "cell_less a b = False"

fun insort_cell :: "cell \<Rightarrow> cell list \<Rightarrow> cell list" where
  "insort_cell x [] = [x]"
| "insort_cell x (y # ys) = (if cell_less y x then y # insort_cell x ys else x # y # ys)"

definition sort_cells :: "cell list \<Rightarrow> cell list" where
  "sort_cells xs = foldr insort_cell xs []"

definition group_keys :: "cell list \<Rightarrow> cell list" where
  "group_keys kcs = sort_cells (unique (dropna kcs))"

definition group_cells :: "cell list \<Rightarrow> cell \<Rightarrow> cell list \<Rightarrow> cell list" where
  "group_cells kcs k cs = map snd (filter (\<lambda>(kc, c). kc = k) (zip kcs cs))"

subsection \<open>Aggregation operations\<close>

datatype agg = Sum | Mean | Count | First | ConcatUnique | ConcatUniqueDefault

text \<open>
  \<open>ConcatUnique\<close> is the lambda of the rule table (lines 78 to 82),
  \<open>ConcatUniqueDefault\<close> the lambda given to the other text columns (line 255).
\<close>

definition aggregation_rules :: "(string \<times> agg) list" where
  "aggregation_rules =
     [(''Capacity MiB'', Sum), (''In Use MiB'', Sum), (''Free MiB'', Sum),
      (''Provisioned MiB'', Sum), (''VMDK Size MiB'', Sum), (''Size MiB'', Sum),
      (''Speed Mbps'', Sum),
      (''Capacity MB'', Sum), (''Consumed MB'', Sum), (''Free MB'', Sum),
      (''Num Disks'', Sum), (''Num NICs'', Sum), (''Num Snapshots'', Count),
      (''Network'', ConcatUnique), (''MAC Address'', ConcatUnique),
      (''IP Address'', ConcatUnique), (''Disk Path'', ConcatUnique),
      (''Datastore'', ConcatUnique)]"

text \<open>
  The reductions apply to the non-null values of a group. \<open>sum\<close> adds with Python's
  \<open>+\<close> (numbers add, strings concatenate, 0 for an empty group), \<open>mean\<close> is defined
  on numbers, \<open>count\<close> counts, \<open>first\<close> is pandas' \<open>GroupBy.first\<close>: the first non-null
  value, null when there is none.
\<close>

fun py_add :: "cell \<Rightarrow> cell \<Rightarrow> error + cell" where
  "py_add (Num a) (Num b) = Inr (Num (a + b))"
| "py_add (Str a) (Str b) = Inr (Str (a @ b))"
| "py_add a b = Inl TypeError"

fun agg_sum :: "cell list \<Rightarrow> error + cell" where
  "agg_sum [] = Inr (Num 0)"
| "agg_sum [x] = Inr x"
| "agg_sum (x # y # ys) =
     (case agg_sum (y # ys) of Inl e \<Rightarrow> Inl e | Inr r \<Rightarrow> py_add x r)"

definition agg_mean :: "cell list \<Rightarrow> error + cell" where
  "agg_mean xs =
     (if xs = [] then Inr NA
      else case agg_sum xs of
             Inr (Num t) \<Rightarrow> Inr (Num (t / of_nat (length xs)))
           | _ \<Rightarrow> Inl TypeError)"

text \<open>\<open>sep.join(xs)\<close> raises \<open>TypeError\<close> unless every item is a \<open>str\<close>.\<close>

fun join :: "string \<Rightarrow> cell list \<Rightarrow> error + string" where
  "join sep [] = Inr []"
| "join sep [Str s] = Inr s"
| "join sep (Str s # x # xs) =
     (case join sep (x # xs) of Inl e \<Rightarrow> Inl e | Inr r \<Rightarrow> Inr (s @ sep @ r))"
| "join sep (c # xs) = Inl TypeError"

definition join_unique :: "cell list \<Rightarrow> error + cell" where
  "join_unique x =
     (case join '' | '' (unique (dropna x)) of Inl e \<Rightarrow> Inl e | Inr s \<Rightarrow> Inr (Str s))"

fun apply_agg :: "agg \<Rightarrow> cell list \<Rightarrow> error + cell" where
  "apply_agg Sum x = agg_sum (dropna x)"
| "apply_agg Mean x = agg_mean (dropna x)"
| "apply_agg Count x = Inr (Num (of_nat (length (dropna x))))"
| "apply_agg First x = Inr (case dropna x of [] \<Rightarrow> NA | v # vs \<Rightarrow> v)"
| "apply_agg ConcatUnique x =
     (if length (dropna x) > 0 then join_unique x else Inr (Str []))"
| "apply_agg ConcatUniqueDefault x =
     (if length (dropna x) > 1 then join_unique x
      else if length (dropna x) > 0
           then (case x of [] \<Rightarrow> Inl IndexError | c # cs \<Rightarrow> Inr c)
           else Inr (Str []))"

fun agg_dtype :: "agg \<Rightarrow> dtype \<Rightarrow> dtype" where
  "agg_dtype Count d = Numeric"
| "agg_dtype ConcatUnique d = Object"
| "agg_dtype ConcatUniqueDefault d = Object"
| "agg_dtype a d = d"

definition numeric_rule :: "string \<Rightarrow> agg" where
  "numeric_rule col =
     (case map_of aggregation_rules col of
        Some a \<Rightarrow> a
      | None \<Rightarrow>
          if list_ex (\<lambda>word. contains word (lower col))
               [''size'', ''capacity'', ''mib'', ''gb'', ''mb'', ''count'', ''num'']
          then Sum else Mean)"

definition text_rule :: "string \<Rightarrow> agg" where
  "text_rule col =
     (case map_of aggregation_rules col of
        Some a \<Rightarrow> a
      | None \<Rightarrow>
          if lower col \<in> set [''vm'', ''name'', ''powerstate'', ''os'', ''cluster'', ''host'',
                              ''datacenter'']
          then First else ConcatUniqueDefault)"

definition numeric_cols :: "table \<Rightarrow> string list" where
  "numeric_cols df = remove1 vm_uuid_col (map fst (filter (\<lambda>(col, (d, cs)). d = Numeric) df))"

definition text_cols :: "table \<Rightarrow> string list" where
  "text_cols df = remove1 vm_uuid_col (map fst (filter (\<lambda>(col, (d, cs)). d = Object) df))"

definition agg_dict :: "table \<Rightarrow> (string \<times> agg) list" where
  "agg_dict df =
     map (\<lambda>col. (col, numeric_rule col)) (numeric_cols df) @
     map (\<lambda>col. (col, text_rule col)) (text_cols df)"

subsection \<open>Grouped aggregation\<close>

fun agg_groups :: "agg \<Rightarrow> cell list \<Rightarrow> cell list \<Rightarrow> cell list \<Rightarrow> error + cell list" where
  "agg_groups a kcs [] cs = Inr []"
| "agg_groups a kcs (k # ks) cs =
     (case apply_agg a (group_cells kcs k cs) of
        Inl e \<Rightarrow> Inl e
      | Inr v \<Rightarrow> (case agg_groups a kcs ks cs of Inl e \<Rightarrow> Inl e | Inr vs \<Rightarrow> Inr (v # vs)))"

fun agg_columns :: "table \<Rightarrow> cell list \<Rightarrow> cell list \<Rightarrow> (string \<times> agg) list \<Rightarrow> error + table" where
  "agg_columns df kcs ks [] = Inr []"
| "agg_columns df kcs ks ((col, a) # rest) =
     (case map_of df col of
        None \<Rightarrow> Inl KeyError
      | Some (d, cs) \<Rightarrow>
          (case agg_groups a kcs ks cs of
             Inl e \<Rightarrow> Inl e
           | Inr vs \<Rightarrow>
               (case agg_columns df kcs ks rest of
                  Inl e \<Rightarrow> Inl e
                | Inr cols \<Rightarrow> Inr ((col, (agg_dtype a d, vs)) # cols))))"

text \<open>\<open>df.groupby(key).agg(rules).reset_index()\<close>: the key column first, then one
  column per rule, one row per group.\<close>

definition groupby_agg :: "table \<Rightarrow> string \<Rightarrow> (string \<times> agg) list \<Rightarrow> error + table" where
  "groupby_agg df key rules =
     (case map_of df key of
        None \<Rightarrow> Inl KeyError
      | Some (kd, kcs) \<Rightarrow>
          (case agg_columns df kcs (group_keys kcs) rules of
             Inl e \<Rightarrow> Inl e
           | Inr cols \<Rightarrow> Inr ((key, (kd, group_keys kcs)) # cols)))"

text \<open>\<open>df.groupby(key).first().reset_index()\<close>: for every other column, the first
  non-null value of each group.\<close>

definition groupby_first :: "table \<Rightarrow> string \<Rightarrow> error + table" where
  "groupby_first df key =
     groupby_agg df key (map (\<lambda>col. (col, First)) (filter (\<lambda>col. col \<noteq> key) (columns df)))"

definition primary_aggregation :: "table \<Rightarrow> error + table" where
  "primary_aggregation df =
     (if agg_dict df \<noteq> []
      then (case groupby_agg df vm_uuid_col (agg_dict df) of
              Inl e \<Rightarrow> Inl e
            | Inr aggregated \<Rightarrow> Inr (convert_mib_to_gb aggregated))
      else (case groupby_first df vm_uuid_col of
              Inl e \<Rightarrow> Inl e
            | Inr first_records \<Rightarrow> Inr (convert_mib_to_gb first_records)))"

definition aggregate_vm_data :: "table \<Rightarrow> table" where
  "aggregate_vm_data df =
     (if vm_uuid_col \<notin> set (columns df) \<or> df_empty df then df
      else if max_count (value_counts (cells_of df vm_uuid_col)) = Some 1
      then convert_mib_to_gb df
      else (case primary_aggregation df of
              Inr r \<Rightarrow> r
            | Inl e \<Rightarrow>
                (case groupby_first df vm_uuid_col of
                   Inr first_records \<Rightarrow> convert_mib_to_gb first_records
                 | Inl e' \<Rightarrow> convert_mib_to_gb df)))"


section \<open>Merger: \<open>merge_all_vm_data\<close>\<close>

text \<open>
  The category map \<open>csv_data\<close> is a Python dict: an association list in insertion order.
\<close>

definition base_options :: "string list" where
  "base_options = [''cpu'', ''info'', ''memory'', ''disk'', ''network'', ''tools'']"

definition qualifies :: "(string \<times> table) list \<Rightarrow> string \<Rightarrow> bool" where
  "qualifies csv_data opt =
     (case map_of csv_data opt of
        None \<Rightarrow> False
      | Some df \<Rightarrow> \<not> df_empty df \<and> vm_uuid_col \<in> set (columns df))"

fun find_base :: "(string \<times> table) list \<Rightarrow> string list \<Rightarrow> string option" where
  "find_base csv_data [] = None"
| "find_base csv_data (opt # opts) =
     (if qualifies csv_data opt then Some opt else find_base csv_data opts)"

definition rename_columns :: "string \<Rightarrow> table \<Rightarrow> table" where
  "rename_columns prefix df =
     map (\<lambda>(col, s). (if col \<noteq> vm_uuid_col then prefix @ ''_'' @ col else col, s)) df"

text \<open>
  \<open>left.merge(right, on='VM UUID', how='left')\<close>. Every left row is kept, once per
  matching right row (null keys match each other) and once with nulls when nothing
  matches; right rows with other keys are not added. Non-key names present on both
  sides get the suffixes \<open>_x\<close> and \<open>_y\<close>. pandas refuses to join a text key with a
  numeric key (\<open>ValueError\<close>).
\<close>

definition left_rows :: "cell list \<Rightarrow> cell list \<Rightarrow> cell list \<Rightarrow> cell list" where
  "left_rows rk lk cs =
     concat (map (\<lambda>(k, c). replicate (max 1 (count_list rk k)) c) (zip lk cs))"

definition right_rows :: "cell list \<Rightarrow> cell list \<Rightarrow> cell list \<Rightarrow> cell list" where
  "right_rows rk lk cs =
     concat (map (\<lambda>k. case group_cells rk k cs of [] \<Rightarrow> [NA] | v # vs \<Rightarrow> v # vs) lk)"

definition right_dtype :: "cell list \<Rightarrow> cell list \<Rightarrow> dtype \<Rightarrow> dtype" where
  "right_dtype rk lk d = (if d = Boolean \<and> (\<exists>k \<in> set lk. k \<notin> set rk) then Object else d)"

definition merge_left :: "table \<Rightarrow> table \<Rightarrow> error + table" where
  "merge_left left right =
     (case map_of left vm_uuid_col of
        None \<Rightarrow> Inl KeyError
      | Some (ld, lk) \<Rightarrow>
          (case map_of right vm_uuid_col of
             None \<Rightarrow> Inl KeyError
           | Some (rd, rk) \<Rightarrow>
               if (ld = Object) \<noteq> (rd = Object) then Inl ValueError
               else Inr
                 (map (\<lambda>(col, (d, cs)).
                         (if col \<noteq> vm_uuid_col \<and> col \<in> set (columns right)
                          then col @ ''_x'' else col,
                          (d, left_rows rk lk cs))) left @
                  map (\<lambda>(col, (d, cs)).
                         (if col \<in> set (columns left) then col @ ''_y'' else col,
                          (right_dtype rk lk d, right_rows rk lk cs)))
                      (filter (\<lambda>(col, s). col \<noteq> vm_uuid_col) right))))"

text \<open>
  One iteration of the merge loop on the state \<open>(result_df, merged_count)\<close>; every
  exception inside the \<open>try\<close> leaves the state as it was.
\<close>

definition merge_step :: "string \<Rightarrow> table \<times> nat \<Rightarrow> string \<times> table \<Rightarrow> table \<times> nat" where
  "merge_step base_key st item =
     (case st of (result_df, merged_count) \<Rightarrow>
      case item of (data_type, df) \<Rightarrow>
        if data_type = base_key \<or> df_empty df \<or> vm_uuid_col \<notin> set (columns df) then st
        else let aggregated_df = aggregate_vm_data df in
          if df_empty aggregated_df then st
          else (case merge_left result_df (rename_columns data_type aggregated_df) of
                  Inl e \<Rightarrow> st
                | Inr merged \<Rightarrow> (merged, merged_count + 1)))"

definition merge_all_vm_data :: "(string \<times> table) list \<Rightarrow> table" where
  "merge_all_vm_data csv_data =
     (if csv_data = [] then []
      else case find_base csv_data base_options of
             None \<Rightarrow> []
           | Some base_key \<Rightarrow>
               (case map_of csv_data base_key of
                  None \<Rightarrow> []
                | Some base \<Rightarrow>
                    let result_df = aggregate_vm_data base in
                    if df_empty result_df then []
                    else fst (foldl (merge_step base_key)
                                (rename_columns base_key result_df, 1) csv_data)))"

section \<open>Output Shaper\<close>









text \<open>Boolean indexing \<open>df[keep]\<close>: the rows whose flag is true.\<close>

definition keep_rows :: "bool list \<Rightarrow> cell list \<Rightarrow> cell list" where
  "keep_rows keep cs = map snd (filter fst (zip keep cs))"

definition filter_rows :: "bool list \<Rightarrow> table \<Rightarrow> table" where
  "filter_rows keep df = map (\<lambda>(col, (d, cs)). (col, (d, keep_rows keep cs))) df"



section \<open>Auxiliary notions and example inputs\<close>

text \<open>
  A column name that neither loop of the Unit Normalizer selects and that cannot be the
  derived name of a converted column (derived names contain \<open>_GB\<close> or \<open> GB\<close>).
\<close>

definition plain_name :: "string \<Rightarrow> bool" where
  "plain_name x = (\<not> is_mib x \<and> \<not> is_mb x \<and> \<not> contains ''_GB'' x \<and> \<not> contains '' GB'' x)"

definition nic_only :: "(string \<times> table) list" where
  "nic_only =
     [(''nic'', [(''VM UUID'', (Object, [Str ''u1''])), (''Network'', (Object, [Str ''n1'']))])]"

definition memory_then_cpu :: "(string \<times> table) list" where
  "memory_then_cpu =
     [(''memory'', [(''VM UUID'', (Object, [Str ''u1''])), (''Size MiB'', (Numeric, [Num 2048]))]),
      (''cpu'', [(''VM UUID'', (Object, [Str ''u1''])), (''CPUs'', (Numeric, [Num 2]))])]"

text \<open>The rows of a frame whose key is not null.\<close>

definition drop_null_keys :: "table \<Rightarrow> table" where
  "drop_null_keys df = filter_rows (map (\<lambda>k. k \<noteq> NA) (cells_of df vm_uuid_col)) df"

definition two_null_keys :: table where
  "two_null_keys =
     [(''VM'', (Object, [Str ''a'', Str ''b'', Str ''c''])),
      (''VM UUID'', (Object, [Str ''u1'', NA, NA]))]"

definition numeric_datastore :: table where
  "numeric_datastore =
     [(''VM UUID'', (Object, [Str ''A'', Str ''A'', Str ''B''])),
      (''Folder'', (Object, [NA, Str ''prod'', Str ''test''])),
      (''Datastore'', (Numeric, [Num 5, Num 6, Num 7]))]"

definition only_null_key :: table where
  "only_null_key = [(''VM'', (Object, [Str ''a''])), (''VM UUID'', (Numeric, [NA]))]"

definition repeated_and_null_keys :: table where
  "repeated_and_null_keys =
     [(''VM UUID'', (Object, [Str ''A'', NA, Str ''A''])),
      (''Size MiB'', (Numeric, [Num 1024, Num 4096, Num 2048]))]"

definition null_then_value :: table where
  "null_then_value =
     [(''VM UUID'', (Object, [Str ''A'', Str ''A''])),
      (''Folder'', (Object, [NA, Str ''x'']))]"

text \<open>Every column of the frame has \<open>n\<close> cells.\<close>

definition all_len :: "nat \<Rightarrow> table \<Rightarrow> bool" where
  "all_len n df = (\<forall>(name, (d, cs)) \<in> set df. length cs = n)"

definition cpu_table :: table where
  "cpu_table =
     [(''VM'', (Object, [Str ''vm1'', Str ''vm2''])),
      (''CPUs'', (Numeric, [Num 2, Num 4])),
      (''Powerstate'', (Object, [Str ''poweredOn'', Str ''poweredOff''])),
      (''VM UUID'', (Object, [Str ''b'', Str ''a'']))]"

definition memory_table :: table where
  "memory_table =
     [(''VM'', (Object, [Str ''vm1'', Str ''vm3''])),
      (''Size MiB'', (Numeric, [Num 2048, Num 4096])),
      (''VM UUID'', (Object, [Str ''b'', Str ''c'']))]"

definition disk_table :: table where
  "disk_table =
     [(''VM'', (Object, [Str ''vm1'', Str ''vm1'', Str ''vm2''])),
      (''Capacity MiB'', (Numeric, [Num 2048, Num 4096, Num 512])),
      (''VM UUID'', (Object, [Str ''b'', Str ''b'', Str ''a'']))]"

text \<open>Four categories: \<open>memory\<close> brings a key the base lacks, \<open>extra\<close> has a numeric
  key column, which the join refuses.\<close>

definition four_sources :: "(string \<times> table) list" where
  "four_sources =
     [(''memory'', memory_table), (''disk'', disk_table), (''cpu'', cpu_table),
      (''extra'', [(''VM UUID'', (Numeric, [Num 1])), (''Note'', (Object, [Str ''q'']))])]"



text \<open>
  No column of the frame other than \<open>c\<close> itself has \<open>c\<close> as its derived name, by
  either loop or by both in turn.
\<close>

definition not_derived :: "table \<Rightarrow> string \<Rightarrow> bool" where
  "not_derived df c =
     list_all (\<lambda>c'. (c' = c \<or> (mib_name c' \<noteq> c \<and> mb_name c' \<noteq> c)) \<and>
                    (mib_name c' = c \<or> mb_name (mib_name c') \<noteq> c))
       (columns df)"


definition lowercase_markers :: table where
  "lowercase_markers =
     [(''VM UUID'', (Object, [Str ''u1''])),
      (''Number of CPUs'', (Numeric, [Num 4])),
      (''Size mib'', (Numeric, [Num 2048])),
      (''Free MiB'', (Numeric, [Num 1024]))]"


definition number_mb :: table where
  "number_mb =
     [(''VM UUID'', (Object, [Str ''u1''])), (''Number MB'', (Numeric, [Num 2500]))]"

text \<open>
  A text column's cells as optional strings, and the joining of strings with a
  separator, for stating what the concat-unique operation returns.
\<close>

definition text_cell :: "string option \<Rightarrow> cell" where
  "text_cell x = (case x of None \<Rightarrow> NA | Some s \<Rightarrow> Str s)"

definition texts :: "string option list \<Rightarrow> string list" where
  "texts xs = concat (map (\<lambda>x. case x of None \<Rightarrow> [] | Some s \<Rightarrow> [s]) xs)"

fun join_with :: "string \<Rightarrow> string list \<Rightarrow> string" where
  "join_with sep [] = []"
| "join_with sep [s] = s"
| "join_with sep (s # t # ss) = s @ sep @ join_with sep (t # ss)"

section \<open>The column order the specification describes\<close>





text \<open>
  pandas appends \<open>_x\<close> (left) and \<open>_y\<close> (right) to a name found on both sides of a
  join. \<open>suffixed expected actual\<close>: the actual name is the expected one followed by
  such suffixes; the key column never gets one.
\<close>

fun only_suffixes :: "string \<Rightarrow> bool" where
  "only_suffixes [] = True"
| "only_suffixes [a] = False"
| "only_suffixes (a # b # rest) =
     (a = CHR ''_'' \<and> (b = CHR ''x'' \<or> b = CHR ''y'') \<and> only_suffixes rest)"

definition suffixed :: "string \<Rightarrow> string \<Rightarrow> bool" where
  "suffixed expected actual =
     (take (length expected) actual = expected \<and>
      only_suffixes (drop (length expected) actual) \<and>
      (actual = expected \<or> expected \<noteq> vm_uuid_col))"


section \<open>Strings and column lookups\<close>

lemma starts_with_append: "starts_with (p @ s) p"
  by (induction p) auto

lemma contains_prefix: "contains sub (sub @ s)"
  by (cases "sub @ s") (auto simp: starts_with_append simp flip: append_Cons dest: sym)

lemma contains_append_left: "contains sub s \<Longrightarrow> contains sub (p @ s)"
  by (induction p) auto

lemma replace_id: "\<not> contains old s \<Longrightarrow> replace old new s = s"
  by (induction old new s rule: replace.induct) auto

lemma contains_replace:
  "old \<noteq> [] \<Longrightarrow> contains old s \<Longrightarrow> contains new (replace old new s)"
proof (induction old new s rule: replace.induct)
  case (1 old new)
  then show ?case by simp
next
  case (2 old new c cs)
  show ?case
  proof (cases "starts_with (c # cs) old")
    case True
    then show ?thesis using 2(3) by (simp add: contains_prefix)
  next
    case False
    with 2 have "contains new (replace old new cs)" by simp
    then have "contains new (c # replace old new cs)" by simp
    with False show ?thesis by simp
  qed
qed

lemma replace_fixed:
  assumes "replace old new s = x" "old \<noteq> []" "\<not> contains new x"
  shows "s = x"
proof (cases "contains old s")
  case True
  then show ?thesis using assms contains_replace by blast
next
  case False
  then show ?thesis using assms by (simp add: replace_id)
qed

lemma mib_name_fixed:
  "mib_name c = x \<Longrightarrow> \<not> contains ''_GB'' x \<Longrightarrow> \<not> contains '' GB'' x \<Longrightarrow> c = x"
  unfolding mib_name_def
  by (metis replace_fixed list.distinct(1))

lemma mb_name_fixed:
  "mb_name c = x \<Longrightarrow> \<not> contains ''_GB'' x \<Longrightarrow> \<not> contains '' GB'' x \<Longrightarrow> c = x"
  unfolding mb_name_def
  by (metis replace_fixed list.distinct(1))

lemma vm_uuid_plain:
  "\<not> is_mib vm_uuid_col" "\<not> is_mb vm_uuid_col"
  "\<not> contains ''_GB'' vm_uuid_col" "\<not> contains '' GB'' vm_uuid_col"
  by (simp_all add: is_mib_def is_mb_def vm_uuid_col_def lower_def lower_char_def)

lemma map_of_set_column:
  "map_of (set_column n s df) x = (if x = n then Some s else map_of df x)"
  by (induction df) auto

lemma map_of_drop_column:
  "map_of (drop_column n df) x = (if x = n then None else map_of df x)"
  by (induction df) (auto simp: drop_column_def)

lemma map_of_convert_step:
  "map_of (convert_step rn k df col) x =
     (case map_of df col of
        None \<Rightarrow> map_of df x
      | Some (d, cs) \<Rightarrow>
          if x = col then None
          else if x = rn col then Some (Numeric, map (div_round k) cs)
          else map_of df x)"
  by (auto simp: convert_step_def map_of_drop_column map_of_set_column split: option.splits)

lemma map_of_foldl_convert_frame:
  "x \<notin> set cols \<Longrightarrow> \<forall>c \<in> set cols. rn c \<noteq> x \<Longrightarrow>
   map_of (foldl (convert_step rn k) df cols) x = map_of df x"
proof (induction cols arbitrary: df)
  case Nil
  then show ?case by simp
next
  case (Cons c cols)
  then have "map_of (foldl (convert_step rn k) (convert_step rn k df c) cols) x =
             map_of (convert_step rn k df c) x" by simp
  also have "\<dots> = map_of df x"
    using Cons.prems by (auto simp: map_of_convert_step split: option.splits)
  finally show ?case by simp
qed

lemma mib_columns_is_mib: "c \<in> set (mib_columns df) \<Longrightarrow> is_mib c"
  by (auto simp: mib_columns_def)

lemma mb_columns_is_mb: "c \<in> set (mb_columns df) \<Longrightarrow> is_mb c"
  by (auto simp: mb_columns_def)

lemma map_of_convert_plain:
  assumes "plain_name x"
  shows "map_of (convert_mib_to_gb df) x = map_of df x"
proof -
  have nx: "\<not> is_mib x" "\<not> is_mb x"
    and gx: "\<not> contains ''_GB'' x" "\<not> contains '' GB'' x"
    using assms by (simp_all add: plain_name_def)
  have fx: "c = x" if "mib_name c = x" for c
    using that gx by (rule mib_name_fixed)
  have fy: "c = x" if "mb_name c = x" for c
    using that gx by (rule mb_name_fixed)
  have a: "map_of (mib_pass df) x = map_of df x"
    unfolding mib_pass_def
  proof (rule map_of_foldl_convert_frame)
    show "x \<notin> set (mib_columns df)" using nx(1) mib_columns_is_mib by blast
    show "\<forall>c\<in>set (mib_columns df). mib_name c \<noteq> x"
    proof
      fix c assume c: "c \<in> set (mib_columns df)"
      show "mib_name c \<noteq> x"
      proof
        assume "mib_name c = x"
        then have "c = x" by (rule fx)
        with c nx(1) mib_columns_is_mib show False by blast
      qed
    qed
  qed
  have b: "map_of (mb_pass (mib_pass df)) x = map_of (mib_pass df) x"
    unfolding mb_pass_def
  proof (rule map_of_foldl_convert_frame)
    show "x \<notin> set (mb_columns (mib_pass df))" using nx(2) mb_columns_is_mb by blast
    show "\<forall>c\<in>set (mb_columns (mib_pass df)). mb_name c \<noteq> x"
    proof
      fix c assume c: "c \<in> set (mb_columns (mib_pass df))"
      show "mb_name c \<noteq> x"
      proof
        assume "mb_name c = x"
        then have "c = x" by (rule fy)
        with c nx(2) mb_columns_is_mb show False by blast
      qed
    qed
  qed
  show ?thesis by (simp add: convert_mib_to_gb_def a b)
qed

lemma plain_vm_uuid: "plain_name vm_uuid_col"
  by (simp add: plain_name_def vm_uuid_plain)

section \<open>The scan for the base category\<close>

lemma find_base_Some_iff:
  "find_base csv_data opts = Some b \<longleftrightarrow>
     (\<exists>pre post. opts = pre @ b # post \<and> qualifies csv_data b \<and>
        (\<forall>opt \<in> set pre. \<not> qualifies csv_data opt))"
proof (induction opts)
  case Nil
  then show ?case by simp
next
  case (Cons opt opts)
  show ?case
  proof (cases "qualifies csv_data opt")
    case True
    have "(\<exists>pre post. opt # opts = pre @ b # post \<and> qualifies csv_data b \<and>
        (\<forall>o' \<in> set pre. \<not> qualifies csv_data o')) \<longleftrightarrow> b = opt"
    proof
      assume "\<exists>pre post. opt # opts = pre @ b # post \<and> qualifies csv_data b \<and>
        (\<forall>o' \<in> set pre. \<not> qualifies csv_data o')"
      then obtain pre post where p: "opt # opts = pre @ b # post"
        "\<forall>o' \<in> set pre. \<not> qualifies csv_data o'" by blast
      show "b = opt"
      proof (cases pre)
        case Nil
        with p show ?thesis by simp
      next
        case (Cons a list)
        with p True show ?thesis by auto
      qed
    next
      assume "b = opt"
      with True have "opt # opts = [] @ b # opts \<and> qualifies csv_data b \<and>
        (\<forall>o' \<in> set []. \<not> qualifies csv_data o')" by simp
      then show "\<exists>pre post. opt # opts = pre @ b # post \<and> qualifies csv_data b \<and>
        (\<forall>o' \<in> set pre. \<not> qualifies csv_data o')" by blast
    qed
    with True show ?thesis by auto
  next
    case False
    have "(\<exists>pre post. opt # opts = pre @ b # post \<and> qualifies csv_data b \<and>
        (\<forall>o' \<in> set pre. \<not> qualifies csv_data o')) \<longleftrightarrow>
      (\<exists>pre post. opts = pre @ b # post \<and> qualifies csv_data b \<and>
        (\<forall>o' \<in> set pre. \<not> qualifies csv_data o'))" (is "?L \<longleftrightarrow> ?R")
    proof
      assume ?L
      then obtain pre post where p: "opt # opts = pre @ b # post" "qualifies csv_data b"
        "\<forall>o' \<in> set pre. \<not> qualifies csv_data o'" by blast
      show ?R
      proof (cases pre)
        case Nil
        with p False show ?thesis by simp
      next
        case (Cons a list)
        with p have "opts = list @ b # post" "\<forall>o' \<in> set list. \<not> qualifies csv_data o'"
          by auto
        with p(2) show ?thesis by blast
      qed
    next
      assume ?R
      then obtain pre post where p: "opts = pre @ b # post" "qualifies csv_data b"
        "\<forall>o' \<in> set pre. \<not> qualifies csv_data o'" by blast
      with False have "opt # opts = (opt # pre) @ b # post \<and> qualifies csv_data b \<and>
        (\<forall>o' \<in> set (opt # pre). \<not> qualifies csv_data o')" by simp
      then show ?L by blast
    qed
    with False Cons.IH show ?thesis by simp
  qed
qed

lemma find_base_None_iff:
  "find_base csv_data opts = None \<longleftrightarrow> (\<forall>opt \<in> set opts. \<not> qualifies csv_data opt)"
  by (induction opts) auto

section \<open>Grouping and the paths of the Aggregator\<close>

lemma set_unique: "set (unique xs) = set xs"
  by (induction xs rule: unique.induct) auto

lemma distinct_unique: "distinct (unique xs)"
  by (induction xs rule: unique.induct) (auto simp: set_unique)

lemma unique_Nil_iff: "unique xs = [] \<longleftrightarrow> xs = []"
  by (cases xs) auto

lemma set_insort_cell: "set (insort_cell x xs) = insert x (set xs)"
  by (induction xs) auto

lemma distinct_insort_cell: "distinct (insort_cell x xs) \<longleftrightarrow> x \<notin> set xs \<and> distinct xs"
  by (induction xs) (auto simp: set_insort_cell)

lemma set_sort_cells: "set (sort_cells xs) = set xs"
  by (induction xs) (auto simp: sort_cells_def set_insort_cell)

lemma sort_cells_Cons: "sort_cells (x # xs) = insort_cell x (sort_cells xs)"
  by (simp add: sort_cells_def)

lemma distinct_sort_cells: "distinct (sort_cells xs) \<longleftrightarrow> distinct xs"
proof (induction xs)
  case Nil
  then show ?case by (simp add: sort_cells_def)
next
  case (Cons a xs)
  then show ?case
    by (simp add: sort_cells_Cons distinct_insort_cell set_sort_cells)
qed

lemma set_group_keys: "set (group_keys kcs) = set kcs - {NA}"
  by (auto simp: group_keys_def set_sort_cells set_unique dropna_def)

lemma distinct_group_keys: "distinct (group_keys kcs)"
  by (simp add: group_keys_def distinct_sort_cells distinct_unique)

lemma dropna_group_keys: "dropna (group_keys kcs) = group_keys kcs"
  using set_group_keys [of kcs] by (auto simp: dropna_def filter_id_conv)

lemma fold_max_le: "fold max xs (a::nat) \<le> b \<longleftrightarrow> a \<le> b \<and> (\<forall>x \<in> set xs. x \<le> b)"
  by (induction xs arbitrary: a) auto

lemma fold_max_ge: "(a::nat) \<le> fold max xs a"
  by (induction xs arbitrary: a) (auto intro: order_trans [OF max.cobounded2])

lemma fold_max_mem: "x \<in> set xs \<Longrightarrow> (x::nat) \<le> fold max xs a"
proof (induction xs arbitrary: a)
  case Nil
  then show ?case by simp
next
  case (Cons y ys)
  then show ?case
    using fold_max_ge [of "max y a" ys] by auto
qed

lemma count_le_one_distinct: "(\<forall>x \<in> set xs. count_list xs x \<le> 1) \<longleftrightarrow> distinct xs"
proof (induction xs)
  case Nil
  then show ?case by simp
next
  case (Cons a xs)
  show ?case
  proof
    assume h: "\<forall>x \<in> set (a # xs). count_list (a # xs) x \<le> 1"
    then have "count_list xs a = 0" by auto
    then have a: "a \<notin> set xs" by (simp add: count_list_0_iff)
    have "\<forall>x \<in> set xs. count_list xs x \<le> 1"
    proof
      fix x assume "x \<in> set xs"
      with h have "count_list (a # xs) x \<le> 1" by simp
      then show "count_list xs x \<le> 1" by (simp split: if_splits)
    qed
    with Cons.IH a show "distinct (a # xs)" by simp
  next
    assume d: "distinct (a # xs)"
    then have "\<forall>x \<in> set xs. count_list xs x \<le> 1" using Cons.IH by simp
    moreover from d have "count_list xs a = 0" by (simp add: count_list_0_iff)
    ultimately show "\<forall>x \<in> set (a # xs). count_list (a # xs) x \<le> 1" using d by auto
  qed
qed

lemma max_count_one_iff:
  "max_count (value_counts cs) = Some 1 \<longleftrightarrow> dropna cs \<noteq> [] \<and> distinct (dropna cs)"
proof (cases "dropna cs = []")
  case True
  then show ?thesis by (simp add: max_count_def value_counts_def)
next
  case False
  let ?ys = "dropna cs"
  let ?counts = "map snd (value_counts cs)"
  have ne: "value_counts cs \<noteq> []"
    using False by (simp add: value_counts_def unique_Nil_iff)
  have set_counts: "set ?counts = (\<lambda>v. count_list ?ys v) ` set ?ys"
    by (simp add: value_counts_def set_unique comp_def)
  obtain y where y: "y \<in> set ?ys" using False by (cases ?ys) auto
  then have pos: "1 \<le> count_list ?ys y" 
    using count_list_0_iff [of ?ys y] by (cases "count_list ?ys y") auto
  have ge1: "1 \<le> fold max ?counts 0"
    using fold_max_mem [of "count_list ?ys y" ?counts 0] y pos set_counts by auto
  have "fold max ?counts 0 = 1 \<longleftrightarrow> fold max ?counts 0 \<le> 1" using ge1 by auto
  also have "\<dots> \<longleftrightarrow> (\<forall>n \<in> set ?counts. n \<le> 1)"
    by (simp add: fold_max_le)
  also have "\<dots> \<longleftrightarrow> (\<forall>x \<in> set ?ys. count_list ?ys x \<le> 1)"
    unfolding set_counts by blast
  also have "\<dots> \<longleftrightarrow> distinct ?ys" by (rule count_le_one_distinct)
  finally show ?thesis using False ne by (simp add: max_count_def)
qed

lemma agg_groups_First: "\<exists>vs. agg_groups First kcs ks cs = Inr vs"
  by (induction ks) auto

lemma agg_columns_First:
  "\<forall>(col, a) \<in> set rules. a = First \<and> map_of df col \<noteq> None \<Longrightarrow>
   \<exists>cols. agg_columns df kcs ks rules = Inr cols"
proof (induction rules)
  case Nil
  then show ?case by simp
next
  case (Cons r rules)
  obtain col a where r: "r = (col, a)" by (cases r)
  with Cons.prems obtain d cs where c: "a = First" "map_of df col = Some (d, cs)" by auto
  from agg_groups_First obtain vs where vs: "agg_groups First kcs ks cs = Inr vs" by blast
  from Cons obtain cols where "agg_columns df kcs ks rules = Inr cols" by auto
  with r c vs show ?case by simp
qed

lemma groupby_first_ok:
  assumes "map_of df key = Some (kd, kcs)"
  shows "\<exists>cols. groupby_first df key = Inr ((key, (kd, group_keys kcs)) # cols)"
proof -
  let ?rules = "map (\<lambda>col. (col, First)) (filter (\<lambda>col. col \<noteq> key) (columns df))"
  have "\<forall>(col, a) \<in> set ?rules. a = First \<and> map_of df col \<noteq> None"
    by (auto simp: columns_def map_of_eq_None_iff)
  from agg_columns_First [OF this] obtain cols
    where "agg_columns df kcs (group_keys kcs) ?rules = Inr cols" by blast
  with assms show ?thesis by (simp add: groupby_first_def groupby_agg_def)
qed

lemma groupby_agg_Inr:
  assumes "groupby_agg df key rules = Inr r" "map_of df key = Some (kd, kcs)"
  shows "\<exists>cols. r = (key, (kd, group_keys kcs)) # cols"
  using assms by (auto simp: groupby_agg_def split: sum.splits)

lemma primary_aggregation_Inr:
  assumes "primary_aggregation df = Inr r" "map_of df vm_uuid_col = Some (kd, kcs)"
  shows "\<exists>cols. r = convert_mib_to_gb ((vm_uuid_col, (kd, group_keys kcs)) # cols)"
proof (cases "agg_dict df \<noteq> []")
  case True
  with assms(1) obtain a where a: "groupby_agg df vm_uuid_col (agg_dict df) = Inr a"
    "r = convert_mib_to_gb a"
    by (auto simp: primary_aggregation_def split: sum.splits)
  from groupby_agg_Inr [OF a(1) assms(2)] a(2) show ?thesis by blast
next
  case False
  with assms(1) obtain a where a: "groupby_first df vm_uuid_col = Inr a"
    "r = convert_mib_to_gb a"
    by (auto simp: primary_aggregation_def split: sum.splits)
  from groupby_first_ok [OF assms(2)] a show ?thesis by auto
qed

text \<open>The three ways \<open>aggregate_vm_data\<close> returns.\<close>

lemma aggregate_unchanged:
  "vm_uuid_col \<notin> set (columns df) \<or> df_empty df \<Longrightarrow> aggregate_vm_data df = df"
  by (simp add: aggregate_vm_data_def)

lemma aggregate_skip:
  assumes "vm_uuid_col \<in> set (columns df)" "\<not> df_empty df"
    "max_count (value_counts (cells_of df vm_uuid_col)) = Some 1"
  shows "aggregate_vm_data df = convert_mib_to_gb df"
  using assms by (simp add: aggregate_vm_data_def)

lemma aggregate_grouped:
  assumes "map_of df vm_uuid_col = Some (kd, kcs)" "\<not> df_empty df"
    "max_count (value_counts kcs) \<noteq> Some 1"
  shows "\<exists>cols. aggregate_vm_data df =
           convert_mib_to_gb ((vm_uuid_col, (kd, group_keys kcs)) # cols)"
proof -
  have k: "vm_uuid_col \<in> set (columns df)"
    using assms(1) by (auto simp: columns_def dest: map_of_SomeD intro: rev_image_eqI)
  have c: "cells_of df vm_uuid_col = kcs" using assms(1) by (simp add: cells_of_def)
  show ?thesis
  proof (cases "primary_aggregation df")
    case (Inr r)
    from primary_aggregation_Inr [OF Inr assms(1)] Inr k c assms(2,3) show ?thesis
      by (auto simp: aggregate_vm_data_def)
  next
    case (Inl e)
    from groupby_first_ok [OF assms(1)] obtain cols where
      "groupby_first df vm_uuid_col = Inr ((vm_uuid_col, (kd, group_keys kcs)) # cols)"
      by blast
    with Inl k c assms(2,3) show ?thesis by (auto simp: aggregate_vm_data_def)
  qed
qed

lemma cells_of_convert_key:
  "cells_of (convert_mib_to_gb df) vm_uuid_col = cells_of df vm_uuid_col"
  by (simp add: cells_of_def map_of_convert_plain [OF plain_vm_uuid])

lemma map_of_columns: "map_of df c = Some s \<Longrightarrow> c \<in> set (columns df)"
  by (auto simp: columns_def dest: map_of_SomeD intro: rev_image_eqI)

lemma columns_map_of: "c \<in> set (columns df) \<Longrightarrow> \<exists>d cs. map_of df c = Some (d, cs)"
  by (cases "map_of df c") (auto simp: columns_def map_of_eq_None_iff)

lemma wf_length: "wf_table df \<Longrightarrow> map_of df c = Some (d, cs) \<Longrightarrow> length cs = nrows df"
  by (auto simp: wf_table_def dest!: map_of_SomeD)

lemma count_list_dropna: "k \<noteq> NA \<Longrightarrow> count_list (dropna cs) k = count_list cs k"
  by (induction cs) (auto simp: dropna_def)

lemma distinct_dropna_count:
  "distinct (dropna cs) \<Longrightarrow> k \<noteq> NA \<Longrightarrow> count_list cs k \<le> 1"
  using count_le_one_distinct [of "dropna cs"] count_list_dropna [of k cs]
  by (cases "k \<in> set (dropna cs)") (auto simp: count_list_0_iff)

lemma aggregate_key_cells:
  assumes "map_of df vm_uuid_col = Some (kd, kcs)" "wf_table df"
  shows "cells_of (aggregate_vm_data df) vm_uuid_col =
           (if df_empty df then []
            else if dropna kcs \<noteq> [] \<and> distinct (dropna kcs) then kcs
            else group_keys kcs)"
proof -
  have k: "vm_uuid_col \<in> set (columns df)" using assms(1) by (rule map_of_columns)
  have c: "cells_of df vm_uuid_col = kcs" using assms(1) by (simp add: cells_of_def)
  show ?thesis
  proof (cases "df_empty df")
    case True
    then have "nrows df = 0" by (auto simp: df_empty_def nrows_def)
    with wf_length [OF assms(2,1)] have "kcs = []" by simp
    with True c show ?thesis by (simp add: aggregate_unchanged)
  next
    case False
    show ?thesis
    proof (cases "max_count (value_counts kcs) = Some 1")
      case True
      with False k c have "aggregate_vm_data df = convert_mib_to_gb df"
        by (simp add: aggregate_skip)
      moreover have "dropna kcs \<noteq> [] \<and> distinct (dropna kcs)"
        using True max_count_one_iff by blast
      ultimately show ?thesis using False c
        by (simp add: cells_of_convert_key)
    next
      case nm: False
      from aggregate_grouped [OF assms(1) False nm] obtain cols where
        "aggregate_vm_data df = convert_mib_to_gb ((vm_uuid_col, (kd, group_keys kcs)) # cols)"
        by blast
      then have "cells_of (aggregate_vm_data df) vm_uuid_col = group_keys kcs"
        by (simp add: cells_of_convert_key) (simp add: cells_of_def)
      moreover have "\<not> (dropna kcs \<noteq> [] \<and> distinct (dropna kcs))"
        using nm max_count_one_iff by blast
      ultimately show ?thesis using False by auto
    qed
  qed
qed

section \<open>Rows with a null key\<close>

lemma filter_rows_keep:
  "filter_rows keep df = map (\<lambda>(col, (d, cs)). (col, (d, keep_rows keep cs))) df"
  by (simp add: filter_rows_def)

lemma keep_rows_self: "keep_rows (map f cs) cs = filter f cs"
  by (induction cs) (auto simp: keep_rows_def)

lemma columns_filter_rows: "columns (filter_rows keep df) = columns df"
  by (induction df) (auto simp: filter_rows_def columns_def)

lemma map_of_filter_rows:
  "map_of (filter_rows keep df) c = map_option (\<lambda>(d, cs). (d, keep_rows keep cs)) (map_of df c)"
  by (induction df) (auto simp: filter_rows_def keep_rows_def)

lemma group_cells_keep_rows:
  "k \<noteq> NA \<Longrightarrow>
   group_cells (dropna kcs) k (keep_rows (map (\<lambda>k. k \<noteq> NA) kcs) cs) = group_cells kcs k cs"
proof (induction kcs arbitrary: cs)
  case Nil
  then show ?case by (simp add: group_cells_def dropna_def keep_rows_def)
next
  case (Cons a kcs)
  show ?case
  proof (cases cs)
    case Nil
    then show ?thesis by (simp add: group_cells_def dropna_def keep_rows_def)
  next
    case (Cons c cs')
    with Cons.IH [OF Cons.prems, of cs'] Cons.prems show ?thesis
      by (auto simp: group_cells_def dropna_def keep_rows_def)
  qed
qed

lemma agg_groups_keep_rows:
  "NA \<notin> set ks \<Longrightarrow>
   agg_groups a (dropna kcs) ks (keep_rows (map (\<lambda>k. k \<noteq> NA) kcs) cs) = agg_groups a kcs ks cs"
  by (induction ks) (auto simp: group_cells_keep_rows split: sum.splits)

lemma agg_columns_keep_rows:
  assumes "NA \<notin> set ks"
  shows "agg_columns (filter_rows (map (\<lambda>k. k \<noteq> NA) kcs) df) (dropna kcs) ks rules =
         agg_columns df kcs ks rules"
proof (induction rules)
  case Nil
  then show ?case by simp
next
  case (Cons r rules)
  obtain col a where r: "r = (col, a)" by (cases r)
  show ?case
  proof (cases "map_of df col")
    case None
    with r show ?thesis by (simp add: map_of_filter_rows)
  next
    case (Some s)
    obtain d cs where s: "s = (d, cs)" by (cases s)
    with Some r Cons.IH assms show ?thesis
      by (simp add: map_of_filter_rows agg_groups_keep_rows split: sum.splits)
  qed
qed

lemma dropna_idem: "dropna (dropna cs) = dropna cs"
  by (simp add: dropna_def)

lemma group_keys_dropna: "group_keys (dropna kcs) = group_keys kcs"
  by (simp add: group_keys_def dropna_idem)

lemma NA_notin_group_keys: "NA \<notin> set (group_keys kcs)"
  by (simp add: set_group_keys)

lemma value_counts_dropna: "value_counts (dropna kcs) = value_counts kcs"
  by (simp add: value_counts_def dropna_idem)

lemma map_of_drop_null_keys:
  assumes "map_of df vm_uuid_col = Some (kd, kcs)"
  shows "map_of (drop_null_keys df) c =
         map_option (\<lambda>(d, cs). (d, keep_rows (map (\<lambda>k. k \<noteq> NA) kcs) cs)) (map_of df c)"
  using assms by (simp add: drop_null_keys_def cells_of_def map_of_filter_rows)

lemma key_drop_null_keys:
  assumes "map_of df vm_uuid_col = Some (kd, kcs)"
  shows "map_of (drop_null_keys df) vm_uuid_col = Some (kd, dropna kcs)"
  using assms by (simp add: map_of_drop_null_keys [OF assms] keep_rows_self dropna_def)

lemma groupby_agg_drop_null_keys:
  assumes "map_of df vm_uuid_col = Some (kd, kcs)"
  shows "groupby_agg (drop_null_keys df) vm_uuid_col rules = groupby_agg df vm_uuid_col rules"
proof -
  have "agg_columns (drop_null_keys df) (dropna kcs) (group_keys kcs) rules =
        agg_columns df kcs (group_keys kcs) rules"
    using assms agg_columns_keep_rows [OF NA_notin_group_keys]
    by (simp add: drop_null_keys_def cells_of_def)
  then show ?thesis
    by (simp add: groupby_agg_def assms key_drop_null_keys [OF assms] group_keys_dropna
        split: sum.splits)
qed

lemma columns_drop_null_keys: "columns (drop_null_keys df) = columns df"
  by (simp add: drop_null_keys_def columns_filter_rows)

lemma dtype_filter_rows:
  "map fst (filter (\<lambda>(col, (d, cs)). P d) (filter_rows keep df)) =
   map fst (filter (\<lambda>(col, (d, cs)). P d) df)"
  by (induction df) (auto simp: filter_rows_def)

lemma agg_dict_drop_null_keys: "agg_dict (drop_null_keys df) = agg_dict df"
  by (simp add: agg_dict_def numeric_cols_def text_cols_def drop_null_keys_def dtype_filter_rows)

lemma groupby_first_drop_null_keys:
  assumes "map_of df vm_uuid_col = Some (kd, kcs)"
  shows "groupby_first (drop_null_keys df) vm_uuid_col = groupby_first df vm_uuid_col"
  by (simp add: groupby_first_def columns_drop_null_keys groupby_agg_drop_null_keys [OF assms])

lemma primary_drop_null_keys:
  assumes "map_of df vm_uuid_col = Some (kd, kcs)"
  shows "primary_aggregation (drop_null_keys df) = primary_aggregation df"
  by (simp add: primary_aggregation_def agg_dict_drop_null_keys
      groupby_agg_drop_null_keys [OF assms] groupby_first_drop_null_keys [OF assms])

lemma nrows_pos: "wf_table df \<Longrightarrow> map_of df c = Some (d, cs) \<Longrightarrow> cs \<noteq> [] \<Longrightarrow> \<not> df_empty df"
proof -
  assume a: "wf_table df" "map_of df c = Some (d, cs)" "cs \<noteq> []"
  from a(3) have "0 < length cs" by simp
  with wf_length [OF a(1,2)] have "0 < nrows df" by simp
  moreover from a(2) have "df \<noteq> []" by auto
  ultimately show ?thesis by (simp add: df_empty_def)
qed

lemma wf_filter_rows:
  assumes "wf_table df" "length keep = nrows df"
  shows "wf_table (filter_rows keep df)"
proof -
  have len: "length (keep_rows keep cs) = length (filter id keep)" if "length cs = length keep" for cs
    using that unfolding keep_rows_def
    by (induction keep cs rule: list_induct2') auto
  have all: "\<forall>(name, (d, cs)) \<in> set (filter_rows keep df). length cs = length (filter id keep)"
    using assms by (auto simp: filter_rows_keep wf_table_def intro!: len)
  show ?thesis
  proof (cases "filter_rows keep df")
    case Nil
    then show ?thesis by (simp add: wf_table_def)
  next
    case (Cons a list)
    obtain n d cs where a: "a = (n, (d, cs))" by (cases a) auto
    with Cons all have "nrows (filter_rows keep df) = length (filter id keep)"
      by (auto simp: nrows_def)
    with all show ?thesis by (simp add: wf_table_def)
  qed
qed

lemma wf_drop_null_keys:
  assumes "wf_table df" "map_of df vm_uuid_col = Some (kd, kcs)"
  shows "wf_table (drop_null_keys df)"
  using assms wf_length [OF assms]
  by (simp add: drop_null_keys_def cells_of_def wf_filter_rows)

lemma aggregate_drop_null_keys:
  assumes "map_of df vm_uuid_col = Some (kd, kcs)" "wf_table df" "\<not> distinct (dropna kcs)"
  shows "aggregate_vm_data (drop_null_keys df) = aggregate_vm_data df"
proof -
  let ?df = "drop_null_keys df"
  have k: "vm_uuid_col \<in> set (columns df)" using assms(1) by (rule map_of_columns)
  have ne: "dropna kcs \<noteq> []" using assms(3) by auto
  then have "kcs \<noteq> []" by (auto simp: dropna_def)
  then have e: "\<not> df_empty df" using nrows_pos [OF assms(2,1)] by simp
  have e': "\<not> df_empty ?df"
    using nrows_pos [OF wf_drop_null_keys [OF assms(2,1)] key_drop_null_keys [OF assms(1)]] ne
    by simp
  have c: "cells_of df vm_uuid_col = kcs" using assms(1) by (simp add: cells_of_def)
  have c': "cells_of ?df vm_uuid_col = dropna kcs"
    using key_drop_null_keys [OF assms(1)] by (simp add: cells_of_def)
  have m: "max_count (value_counts kcs) \<noteq> Some 1"
    using assms(3) max_count_one_iff by blast
  from groupby_first_ok [OF assms(1)] obtain cols where
    g: "groupby_first df vm_uuid_col = Inr ((vm_uuid_col, (kd, group_keys kcs)) # cols)"
    by blast
  show ?thesis
    using e e' k c c' m g
    by (simp add: aggregate_vm_data_def columns_drop_null_keys value_counts_dropna
        primary_drop_null_keys [OF assms(1)] groupby_first_drop_null_keys [OF assms(1)]
        split: sum.splits)
qed

section \<open>Rectangular frames, renaming and joining\<close>

lemma all_len_wf: "all_len n df \<Longrightarrow> wf_table df"
  by (cases df) (auto simp: all_len_def wf_table_def nrows_def)

lemma wf_all_len: "wf_table df \<Longrightarrow> all_len (nrows df) df"
  by (simp add: all_len_def wf_table_def)

lemma all_len_nrows: "all_len n df \<Longrightarrow> df \<noteq> [] \<Longrightarrow> nrows df = n"
  by (cases df) (auto simp: all_len_def nrows_def)

lemma all_len_set_column:
  "all_len n df \<Longrightarrow> length cs = n \<Longrightarrow> all_len n (set_column name (d, cs) df)"
  by (induction df) (auto simp: all_len_def split: if_splits)

lemma all_len_drop_column: "all_len n df \<Longrightarrow> all_len n (drop_column name df)"
  by (auto simp: all_len_def drop_column_def)

lemma all_len_map_of: "all_len n df \<Longrightarrow> map_of df c = Some (d, cs) \<Longrightarrow> length cs = n"
  by (auto simp: all_len_def dest!: map_of_SomeD)

lemma all_len_convert_step: "all_len n df \<Longrightarrow> all_len n (convert_step rn k df col)"
  by (auto simp: convert_step_def all_len_drop_column all_len_set_column all_len_map_of
      split: option.splits)

lemma all_len_foldl_convert: "all_len n df \<Longrightarrow> all_len n (foldl (convert_step rn k) df cols)"
  by (induction cols arbitrary: df) (auto simp: all_len_convert_step)

lemma all_len_convert: "all_len n df \<Longrightarrow> all_len n (convert_mib_to_gb df)"
  by (simp add: convert_mib_to_gb_def mib_pass_def mb_pass_def all_len_foldl_convert)

lemma length_agg_groups: "agg_groups a kcs ks cs = Inr vs \<Longrightarrow> length vs = length ks"
  by (induction ks arbitrary: vs) (auto split: sum.splits)

lemma all_len_agg_columns:
  "agg_columns df kcs ks rules = Inr cols \<Longrightarrow> all_len (length ks) cols"
proof (induction rules arbitrary: cols)
  case Nil
  then show ?case by (simp add: all_len_def)
next
  case (Cons r rules)
  obtain col a where r: "r = (col, a)" by (cases r)
  from Cons.prems r obtain d cs vs cols' where
    "agg_groups a kcs ks cs = Inr vs" "agg_columns df kcs ks rules = Inr cols'"
    "cols = (col, (agg_dtype a d, vs)) # cols'"
    by (auto split: option.splits sum.splits)
  with Cons.IH [of cols'] length_agg_groups [of a kcs ks cs vs] show ?case
    by (simp add: all_len_def)
qed

lemma all_len_Cons: "all_len n ((name, (d, cs)) # df) \<longleftrightarrow> length cs = n \<and> all_len n df"
  by (simp add: all_len_def)

lemma wf_aggregate:
  assumes "wf_table df"
  shows "wf_table (aggregate_vm_data df)"
proof (cases "vm_uuid_col \<notin> set (columns df) \<or> df_empty df")
  case True
  with assms show ?thesis by (simp add: aggregate_unchanged)
next
  case False
  then obtain kd kcs where m: "map_of df vm_uuid_col = Some (kd, kcs)"
    using columns_map_of by blast
  have c: "cells_of df vm_uuid_col = kcs" using m by (simp add: cells_of_def)
  show ?thesis
  proof (cases "max_count (value_counts kcs) = Some 1")
    case True
    with False c have "aggregate_vm_data df = convert_mib_to_gb df" by (simp add: aggregate_skip)
    with all_len_convert [OF wf_all_len [OF assms]] show ?thesis by (simp add: all_len_wf)
  next
    case nm: False
    let ?ks = "group_keys kcs"
    have g: "all_len (length ?ks) r" if "groupby_agg df vm_uuid_col rules = Inr r" for r rules
      using that m all_len_agg_columns [of df kcs ?ks rules]
      by (auto simp: groupby_agg_def all_len_Cons split: sum.splits)
    have f: "all_len (length ?ks) r" if "groupby_first df vm_uuid_col = Inr r" for r
      using that g by (simp add: groupby_first_def)
    have p: "all_len (length ?ks) r" if "primary_aggregation df = Inr r" for r
      using that g f all_len_convert
      by (auto simp: primary_aggregation_def split: if_splits sum.splits)
    from groupby_first_ok [OF m] obtain cols where
      gf: "groupby_first df vm_uuid_col = Inr ((vm_uuid_col, (kd, ?ks)) # cols)" by blast
    have "all_len (length ?ks) (aggregate_vm_data df)"
    proof (cases "primary_aggregation df")
      case (Inl e)
      with False c nm gf have "aggregate_vm_data df =
        convert_mib_to_gb ((vm_uuid_col, (kd, ?ks)) # cols)"
        by (simp add: aggregate_vm_data_def)
      with f [OF gf] all_len_convert show ?thesis by simp
    next
      case (Inr r)
      with False c nm have "aggregate_vm_data df = r" by (simp add: aggregate_vm_data_def)
      with p [OF Inr] show ?thesis by simp
    qed
    then show ?thesis by (rule all_len_wf)
  qed
qed

lemma key_in_aggregate:
  assumes "vm_uuid_col \<in> set (columns df)"
  shows "\<exists>d cs. map_of (aggregate_vm_data df) vm_uuid_col = Some (d, cs)"
proof -
  from columns_map_of [OF assms] obtain kd kcs
    where m: "map_of df vm_uuid_col = Some (kd, kcs)" by blast
  have c: "cells_of df vm_uuid_col = kcs" using m by (simp add: cells_of_def)
  show ?thesis
  proof (cases "df_empty df")
    case True
    with m show ?thesis by (simp add: aggregate_unchanged)
  next
    case False
    show ?thesis
    proof (cases "max_count (value_counts kcs) = Some 1")
      case True
      with False c assms m show ?thesis
        by (simp add: aggregate_skip map_of_convert_plain [OF plain_vm_uuid])
    next
      case nm: False
      from aggregate_grouped [OF m False nm] show ?thesis
        by (auto simp: map_of_convert_plain [OF plain_vm_uuid])
    qed
  qed
qed

lemma empty_aggregate_no_keys:
  assumes "wf_table df" "vm_uuid_col \<in> set (columns df)" "df_empty (aggregate_vm_data df)"
  shows "cells_of (aggregate_vm_data df) vm_uuid_col = []"
proof -
  from key_in_aggregate [OF assms(2)] obtain d cs
    where m: "map_of (aggregate_vm_data df) vm_uuid_col = Some (d, cs)" by blast
  from assms(3) have "nrows (aggregate_vm_data df) = 0" by (auto simp: df_empty_def nrows_def)
  with wf_length [OF wf_aggregate [OF assms(1)] m] m show ?thesis by (simp add: cells_of_def)
qed

subsection \<open>Renaming and joining keep the key column\<close>

lemma underscore_not_in_key: "CHR ''_'' \<notin> set vm_uuid_col"
  by (simp add: vm_uuid_col_def)

lemma prefixed_not_key: "vm_uuid_col \<noteq> prefix @ CHR ''_'' # col"
proof
  assume "vm_uuid_col = prefix @ CHR ''_'' # col"
  then have "set vm_uuid_col = set (prefix @ CHR ''_'' # col)" by (rule arg_cong)
  then have "CHR ''_'' \<in> set vm_uuid_col" by simp
  with underscore_not_in_key show False by simp
qed

lemma suffixed_not_key: "vm_uuid_col \<noteq> col @ ''_x''" "vm_uuid_col \<noteq> col @ ''_y''"
proof -
  have "CHR ''_'' \<in> set (col @ ''_x'')" "CHR ''_'' \<in> set (col @ ''_y'')" by simp_all
  with underscore_not_in_key show "vm_uuid_col \<noteq> col @ ''_x''" "vm_uuid_col \<noteq> col @ ''_y''"
    by metis+
qed

lemma map_of_rename_key:
  "map_of (rename_columns prefix df) vm_uuid_col = map_of df vm_uuid_col"
  by (induction df) (auto simp: rename_columns_def prefixed_not_key)

lemma set_left_rows_self: "set (left_rows rk lk lk) = set lk"
proof -
  have "zip lk lk = map (\<lambda>k. (k, k)) lk" by (induction lk) auto
  then show ?thesis by (auto simp: left_rows_def)
qed

lemma map_of_merged_left_key:
  "map_of (map (\<lambda>(col, (d, cs)).
                 (if col \<noteq> vm_uuid_col \<and> col \<in> R then col @ ''_x'' else col, (d, f cs))) left)
     vm_uuid_col =
   map_option (\<lambda>(d, cs). (d, f cs)) (map_of left vm_uuid_col)"
  by (induction left) (auto simp: suffixed_not_key split: if_splits)

lemma merge_left_key:
  assumes "merge_left left right = Inr merged"
  shows "\<exists>ld lk rd rk. map_of left vm_uuid_col = Some (ld, lk) \<and>
           map_of right vm_uuid_col = Some (rd, rk) \<and>
           map_of merged vm_uuid_col = Some (ld, left_rows rk lk lk)"
proof -
  from assms obtain ld lk rd rk where l: "map_of left vm_uuid_col = Some (ld, lk)"
    and r: "map_of right vm_uuid_col = Some (rd, rk)"
    by (auto simp: merge_left_def split: option.splits)
  with assms have "map_of merged vm_uuid_col = Some (ld, left_rows rk lk lk)"
    by (auto simp: merge_left_def map_of_merged_left_key map_add_def split: if_splits)
  with l r show ?thesis by blast
qed

lemma merge_left_key_set:
  "merge_left left right = Inr merged \<Longrightarrow>
   set (cells_of merged vm_uuid_col) = set (cells_of left vm_uuid_col)"
  by (drule merge_left_key) (auto simp: cells_of_def set_left_rows_self)

lemma merge_step_key_set:
  "set (cells_of (fst (merge_step base_key st item)) vm_uuid_col) =
   set (cells_of (fst st) vm_uuid_col)"
  by (cases st; cases item)
    (auto simp: merge_step_def Let_def merge_left_key_set split: sum.splits)

lemma merge_loop_key_set:
  "set (cells_of (fst (foldl (merge_step base_key) st items)) vm_uuid_col) =
   set (cells_of (fst st) vm_uuid_col)"
  by (induction items arbitrary: st) (simp_all add: merge_step_key_set)

lemma cells_of_rename_key:
  "cells_of (rename_columns prefix df) vm_uuid_col = cells_of df vm_uuid_col"
  by (simp add: cells_of_def map_of_rename_key)

section \<open>The first column\<close>

















section \<open>The two loops of the Unit Normalizer\<close>

lemma foldl_convert_append:
  "foldl (convert_step rn k) df (pre @ c # post) =
   foldl (convert_step rn k) (convert_step rn k (foldl (convert_step rn k) df pre) c) post"
  by simp

lemma pass_gone:
  assumes "c \<in> set cols" "\<forall>c' \<in> set cols. c' \<noteq> c \<longrightarrow> rn c' \<noteq> c"
  shows "map_of (foldl (convert_step rn k) df cols) c = None"
proof -
  from split_list_last [OF assms(1)] obtain pre post
    where cols: "cols = pre @ c # post" "c \<notin> set post" by blast
  let ?T1 = "foldl (convert_step rn k) df pre"
  have "map_of (convert_step rn k ?T1 c) c = None"
    by (auto simp: map_of_convert_step split: option.splits)
  moreover have "\<forall>c' \<in> set post. rn c' \<noteq> c"
  proof
    fix c' assume "c' \<in> set post"
    with cols have "c' \<in> set cols" "c' \<noteq> c" by auto
    with assms(2) show "rn c' \<noteq> c" by blast
  qed
  then have "map_of (foldl (convert_step rn k) (convert_step rn k ?T1 c) post) c =
                 map_of (convert_step rn k ?T1 c) c"
    using cols(2) by (intro map_of_foldl_convert_frame)
  ultimately show ?thesis by (simp add: cols(1))
qed


lemma pass_origin:
  assumes "map_of (foldl (convert_step rn k) df cols) x \<noteq> None"
  shows "map_of df x \<noteq> None \<or> x \<in> rn ` set cols"
proof (rule ccontr)
  assume "\<not> (map_of df x \<noteq> None \<or> x \<in> rn ` set cols)"
  then have n: "map_of df x = None" "\<forall>c \<in> set cols. rn c \<noteq> x" by auto
  show False
  proof (cases "x \<in> set cols")
    case True
    with n(2) have "map_of (foldl (convert_step rn k) df cols) x = None"
      by (intro pass_gone) auto
    with assms show False by simp
  next
    case False
    with n have "map_of (foldl (convert_step rn k) df cols) x = None"
      by (simp add: map_of_foldl_convert_frame)
    with assms show False by simp
  qed
qed

lemma columns_iff_map_of: "c \<in> set (columns df) \<longleftrightarrow> map_of df c \<noteq> None"
  by (simp add: columns_def map_of_eq_None_iff)

lemma mib_columns_subset: "c \<in> set (mib_columns df) \<Longrightarrow> c \<in> set (columns df)"
  by (auto simp: mib_columns_def columns_def)

lemma mb_columns_subset: "c \<in> set (mb_columns df) \<Longrightarrow> c \<in> set (columns df)"
  by (auto simp: mb_columns_def columns_def)

lemma mib_columns_I:
  "map_of df c = Some (d, cs) \<Longrightarrow> is_mib c \<Longrightarrow> is_numeric_dtype d \<Longrightarrow> c \<in> set (mib_columns df)"
  by (force simp: mib_columns_def dest: map_of_SomeD)

lemma mb_columns_I:
  "map_of df c = Some (d, cs) \<Longrightarrow> is_mb c \<Longrightarrow> is_numeric_dtype d \<Longrightarrow> c \<in> set (mb_columns df)"
  by (force simp: mb_columns_def dest: map_of_SomeD)

lemma mib_pass_origin:
  assumes "x \<in> set (columns (mib_pass df))"
  shows "x \<in> set (columns df) \<or> (\<exists>c \<in> set (columns df). x = mib_name c)"
  using pass_origin [of mib_name 1024 df "mib_columns df" x] assms mib_columns_subset
  by (auto simp: columns_iff_map_of mib_pass_def)

lemma starts_with_contains: "starts_with s sub \<Longrightarrow> contains sub s"
  by (cases s) (auto elim: starts_with.elims)

lemma contains_tl: "contains (x # sub) s \<Longrightarrow> contains sub s"
proof (induction s)
  case Nil
  then show ?case by simp
next
  case (Cons c cs)
  show ?case
  proof (cases "starts_with (c # cs) (x # sub)")
    case True
    then have "starts_with cs sub" by simp
    then have "contains sub cs" by (rule starts_with_contains)
    then show ?thesis by (cases sub) auto
  next
    case False
    with Cons show ?thesis by (cases sub) auto
  qed
qed

lemma mib_name_id:
  assumes "\<not> contains ''MiB'' c"
  shows "mib_name c = c"
proof -
  have "\<not> contains '' MiB'' c" "\<not> contains ''_MiB'' c"
    using assms contains_tl [of _ "''MiB''" c] by blast+
  with assms show ?thesis by (simp add: mib_name_def replace_id)
qed

lemma mb_name_id:
  assumes "\<not> contains ''MB'' c"
  shows "mb_name c = c"
proof -
  have "\<not> contains '' MB'' c" "\<not> contains ''_MB'' c"
    using assms contains_tl [of _ "''MB''" c] by blast+
  with assms show ?thesis by (simp add: mb_name_def replace_id)
qed

lemma convert_step_drop: "rn c = c \<Longrightarrow> convert_step rn k df c = drop_column c df"
proof -
  have "drop_column c (set_column c s df) = drop_column c df" for s
    by (induction df) (auto simp: drop_column_def)
  moreover have "drop_column c df = df" if "map_of df c = None"
    using that by (induction df) (auto simp: drop_column_def split: if_splits)
  ultimately show "rn c = c \<Longrightarrow> convert_step rn k df c = drop_column c df"
    by (auto simp: convert_step_def split: option.splits)
qed

lemma not_derivedD:
  assumes "not_derived df c" "c' \<in> set (columns df)"
  shows "c' \<noteq> c \<Longrightarrow> mib_name c' \<noteq> c" "c' \<noteq> c \<Longrightarrow> mb_name c' \<noteq> c"
    "mib_name c' \<noteq> c \<Longrightarrow> mb_name (mib_name c') \<noteq> c"
  using assms by (auto simp: not_derived_def list_all_iff)

lemma mb_pass_others:
  assumes nd: "not_derived df c" and c'': "c'' \<in> set (mb_columns (mib_pass df))" "c'' \<noteq> c"
  shows "mb_name c'' \<noteq> c"
proof -
  from c''(1) have "c'' \<in> set (columns (mib_pass df))" by (rule mb_columns_subset)
  from mib_pass_origin [OF this] show ?thesis
  proof
    assume "c'' \<in> set (columns df)"
    with nd c''(2) show ?thesis by (simp add: not_derivedD)
  next
    assume "\<exists>c' \<in> set (columns df). c'' = mib_name c'"
    then obtain c' where "c' \<in> set (columns df)" "c'' = mib_name c'" by blast
    with nd c''(2) show ?thesis by (simp add: not_derivedD)
  qed
qed

lemma marked_column_gone:
  assumes m: "map_of df c = Some (d, cs)" and num: "is_numeric_dtype d"
    and mark: "is_mib c \<or> is_mb c" and nd: "not_derived df c"
  shows "c \<notin> set (columns (convert_mib_to_gb df))"
proof -
  let ?df1 = "mib_pass df"
  have mib_others: "\<forall>c' \<in> set (mib_columns df). c' \<noteq> c \<longrightarrow> mib_name c' \<noteq> c"
    using nd mib_columns_subset by (simp add: not_derivedD)
  have mb_others: "\<forall>c'' \<in> set (mb_columns ?df1). c'' \<noteq> c \<longrightarrow> mb_name c'' \<noteq> c"
    using mb_pass_others [OF nd] by blast
  have "map_of (mb_pass ?df1) c = None"
  proof (cases "c \<in> set (mb_columns ?df1)")
    case True
    with mb_others show ?thesis unfolding mb_pass_def by (intro pass_gone)
  next
    case False
    have "map_of ?df1 c = None"
    proof (cases "is_mib c")
      case True
      with m num have "c \<in> set (mib_columns df)" by (simp add: mib_columns_I)
      with mib_others show ?thesis unfolding mib_pass_def by (intro pass_gone)
    next
      case nm: False
      with mark have mb: "is_mb c" by simp
      from nm have "c \<notin> set (mib_columns df)" using mib_columns_is_mib by blast
      with mib_others have "map_of ?df1 c = map_of df c"
        unfolding mib_pass_def by (intro map_of_foldl_convert_frame) auto
      with m num mb have "c \<in> set (mb_columns ?df1)" by (simp add: mb_columns_I)
      with False show ?thesis by simp
    qed
    moreover have "map_of (mb_pass ?df1) c = map_of ?df1 c"
      unfolding mb_pass_def using False mb_others
      by (intro map_of_foldl_convert_frame) auto
    ultimately show ?thesis by simp
  qed
  then show ?thesis by (simp add: columns_iff_map_of convert_mib_to_gb_def)
qed

section \<open>Columns that a loop only drops\<close>

lemma columns_set_column:
  "columns (set_column n s df) = (if n \<in> set (columns df) then columns df else columns df @ [n])"
proof (induction df)
  case Nil
  then show ?case by (simp add: columns_def)
next
  case (Cons a df)
  obtain m x where a: "a = (m, x)" by (cases a)
  with Cons show ?case by (auto simp: columns_def)
qed

lemma columns_drop_column: "columns (drop_column c df) = filter (\<lambda>x. x \<noteq> c) (columns df)"
  by (induction df) (auto simp: columns_def drop_column_def)

lemma distinct_convert_step:
  "distinct (columns df) \<Longrightarrow> distinct (columns (convert_step rn k df col))"
  by (auto simp: convert_step_def columns_drop_column columns_set_column split: option.splits)

lemma distinct_foldl_convert:
  "distinct (columns df) \<Longrightarrow> distinct (columns (foldl (convert_step rn k) df cols))"
  by (induction cols arbitrary: df) (auto simp: distinct_convert_step)

lemma distinct_mib_pass: "distinct (columns df) \<Longrightarrow> distinct (columns (mib_pass df))"
  by (simp add: mib_pass_def distinct_foldl_convert)

lemma distinct_selected:
  "distinct (columns df) \<Longrightarrow> distinct (map fst (filter P df))"
  by (simp add: columns_def distinct_map_filter)

lemma distinct_mib_columns: "distinct (columns df) \<Longrightarrow> distinct (mib_columns df)"
  by (simp add: mib_columns_def distinct_selected)

lemma distinct_mb_columns: "distinct (columns df) \<Longrightarrow> distinct (mb_columns df)"
  by (simp add: mb_columns_def distinct_selected)

lemma selected_drop_column:
  "map fst (filter P (drop_column c df)) = filter (\<lambda>x. x \<noteq> c) (map fst (filter P df))"
  by (induction df) (auto simp: drop_column_def)

lemma mib_columns_drop: "mib_columns (drop_column c df) = filter (\<lambda>x. x \<noteq> c) (mib_columns df)"
  by (simp add: mib_columns_def selected_drop_column)

lemma mb_columns_drop: "mb_columns (drop_column c df) = filter (\<lambda>x. x \<noteq> c) (mb_columns df)"
  by (simp add: mb_columns_def selected_drop_column)

lemma drop_set_column_commute:
  "n \<noteq> c \<Longrightarrow> drop_column c (set_column n s df) = set_column n s (drop_column c df)"
  by (induction df) (auto simp: drop_column_def)

lemma drop_drop_commute: "drop_column c (drop_column c' df) = drop_column c' (drop_column c df)"
  by (induction df) (auto simp: drop_column_def)

lemma drop_convert_step_commute:
  assumes "c' \<noteq> c" "rn c' \<noteq> c"
  shows "drop_column c (convert_step rn k df c') = convert_step rn k (drop_column c df) c'"
proof (cases "map_of df c'")
  case None
  with assms show ?thesis by (simp add: convert_step_def map_of_drop_column)
next
  case (Some s)
  obtain d cs where "s = (d, cs)" by (cases s)
  with Some assms show ?thesis
    by (simp add: convert_step_def map_of_drop_column drop_set_column_commute
        drop_drop_commute [of c c'])
qed

lemma drop_foldl_convert_commute:
  "\<forall>c' \<in> set cols. c' \<noteq> c \<and> rn c' \<noteq> c \<Longrightarrow>
   drop_column c (foldl (convert_step rn k) df cols) =
   foldl (convert_step rn k) (drop_column c df) cols"
  by (induction cols arbitrary: df) (auto simp: drop_convert_step_commute)

lemma pass_without_dropped:
  assumes "distinct cols" "c \<in> set cols" "rn c = c"
    "\<forall>c' \<in> set cols. c' \<noteq> c \<longrightarrow> rn c' \<noteq> c"
  shows "foldl (convert_step rn k) df cols =
         foldl (convert_step rn k) (drop_column c df) (filter (\<lambda>x. x \<noteq> c) cols)"
proof -
  from split_list [OF assms(2)] obtain pre post where cols: "cols = pre @ c # post" by blast
  with assms(1) have nc: "c \<notin> set pre" "c \<notin> set post" by auto
  have pre: "\<forall>c' \<in> set pre. c' \<noteq> c \<and> rn c' \<noteq> c"
  proof
    fix c' assume "c' \<in> set pre"
    with cols nc have "c' \<in> set cols" "c' \<noteq> c" by auto
    with assms(4) show "c' \<noteq> c \<and> rn c' \<noteq> c" by blast
  qed
  have "filter (\<lambda>x. x \<noteq> c) pre = pre" "filter (\<lambda>x. x \<noteq> c) post = post"
    using nc by (auto simp: filter_id_conv)
  then have f: "filter (\<lambda>x. x \<noteq> c) cols = pre @ post"
    using cols by simp
  have "foldl (convert_step rn k) df cols =
        foldl (convert_step rn k) (drop_column c (foldl (convert_step rn k) df pre)) post"
    using assms(3) by (simp add: cols convert_step_drop [of rn c])
  also have "\<dots> = foldl (convert_step rn k) (foldl (convert_step rn k) (drop_column c df) pre) post"
    by (simp add: drop_foldl_convert_commute [OF pre])
  finally show ?thesis by (simp add: f)
qed

lemma dropped_by_mib_loop:
  assumes "distinct (columns df)" "c \<in> set (mib_columns df)" "mib_name c = c" "not_derived df c"
  shows "mib_pass df = mib_pass (drop_column c df)"
proof -
  have "\<forall>c' \<in> set (mib_columns df). c' \<noteq> c \<longrightarrow> mib_name c' \<noteq> c"
    using assms(4) mib_columns_subset by (simp add: not_derivedD)
  from pass_without_dropped [OF distinct_mib_columns [OF assms(1)] assms(2,3) this]
  show ?thesis by (simp add: mib_pass_def mib_columns_drop)
qed

lemma dropped_by_mb_loop:
  assumes "distinct (columns df)" "\<not> is_mib c" "c \<in> set (mb_columns (mib_pass df))"
    "mb_name c = c" "not_derived df c"
  shows "mb_pass (mib_pass df) = mb_pass (mib_pass (drop_column c df))"
proof -
  let ?df1 = "mib_pass df"
  have "\<forall>c' \<in> set (mib_columns df). c' \<noteq> c \<and> mib_name c' \<noteq> c"
    using assms(2,5) mib_columns_subset mib_columns_is_mib by (metis not_derivedD(1))
  then have d1: "mib_pass (drop_column c df) = drop_column c ?df1"
    using assms(2) mib_columns_is_mib
    by (simp add: mib_pass_def mib_columns_drop drop_foldl_convert_commute filter_id_conv)
  have "\<forall>c'' \<in> set (mb_columns ?df1). c'' \<noteq> c \<longrightarrow> mb_name c'' \<noteq> c"
    using mb_pass_others [OF assms(5)] by blast
  from pass_without_dropped
    [OF distinct_mb_columns [OF distinct_mib_pass [OF assms(1)]] assms(3,4) this]
  show ?thesis by (simp add: mb_pass_def mb_columns_drop d1)
qed

section \<open>Derived names\<close>

subsection \<open>Deriving the new name\<close>







section \<open>Columns that a loop converts\<close>






section \<open>What a pass leaves behind\<close>

lemma convert_nothing_selected:
  "mib_columns df = [] \<Longrightarrow> mb_columns df = [] \<Longrightarrow> convert_mib_to_gb df = df"
  by (simp add: convert_mib_to_gb_def mib_pass_def mb_pass_def)

lemma set_column_entries: "set (set_column n s df) \<subseteq> insert (n, s) (set df)"
proof (induction df)
  case Nil
  then show ?case by simp
next
  case (Cons a df)
  obtain m x where a: "a = (m, x)" by (cases a)
  show ?case
  proof (cases "m = n")
    case True
    with a show ?thesis by auto
  next
    case False
    with a Cons show ?thesis by auto
  qed
qed

lemma convert_step_entry:
  assumes "(x, s) \<in> set (convert_step rn k df c)"
  shows "((x, s) \<in> set df \<and> x \<noteq> c) \<or> x = rn c"
proof (cases "map_of df c")
  case None
  then have "c \<notin> fst ` set df" by (simp add: map_of_eq_None_iff)
  with assms None show ?thesis by (force simp: convert_step_def)
next
  case (Some a)
  obtain d cs where a: "a = (d, cs)" by (cases a)
  from assms Some a have "x \<noteq> c"
    and "(x, s) \<in> set (set_column (rn c) (Numeric, map (div_round k) cs) df)"
    by (auto simp: convert_step_def drop_column_def)
  with set_column_entries [of "rn c" "(Numeric, map (div_round k) cs)" df] show ?thesis
    by auto
qed

lemma pass_entry:
  "(x, s) \<in> set (foldl (convert_step rn k) df cols) \<Longrightarrow>
   ((x, s) \<in> set df \<and> x \<notin> set cols) \<or> x \<in> rn ` set cols"
proof (induction cols arbitrary: df)
  case Nil
  then show ?case by simp
next
  case (Cons c cols)
  from Cons.IH [of "convert_step rn k df c"] Cons.prems
  have "((x, s) \<in> set (convert_step rn k df c) \<and> x \<notin> set cols) \<or> x \<in> rn ` set cols"
    by simp
  then show ?case using convert_step_entry [of x s rn k df c] by auto
qed

lemma nothing_left_to_convert:
  assumes h1: "\<forall>c \<in> set (mib_columns df). \<not> is_mib (mib_name c)"
    and h2: "\<forall>c \<in> set (mb_columns (mib_pass df)). \<not> is_mib (mb_name c) \<and> \<not> is_mb (mb_name c)"
  shows "mib_columns (convert_mib_to_gb df) = [] \<and> mb_columns (convert_mib_to_gb df) = []"
proof -
  let ?df1 = "mib_pass df" and ?out = "convert_mib_to_gb df"
  have e1: "\<not> is_mib x" if "(x, (d, cs)) \<in> set ?df1" "is_numeric_dtype d" for x d cs
  proof -
    from pass_entry [of x "(d, cs)" mib_name 1024 df "mib_columns df"] that(1)
    have "((x, (d, cs)) \<in> set df \<and> x \<notin> set (mib_columns df)) \<or>
          x \<in> mib_name ` set (mib_columns df)" by (simp add: mib_pass_def)
    then show ?thesis
    proof
      assume "(x, (d, cs)) \<in> set df \<and> x \<notin> set (mib_columns df)"
      with that(2) show ?thesis by (force simp: mib_columns_def)
    next
      assume "x \<in> mib_name ` set (mib_columns df)"
      with h1 show ?thesis by auto
    qed
  qed
  have e2: "\<not> is_mib x \<and> \<not> is_mb x" if "(x, (d, cs)) \<in> set ?out" "is_numeric_dtype d" for x d cs
  proof -
    from pass_entry [of x "(d, cs)" mb_name 1000 ?df1 "mb_columns ?df1"] that(1)
    have "((x, (d, cs)) \<in> set ?df1 \<and> x \<notin> set (mb_columns ?df1)) \<or>
          x \<in> mb_name ` set (mb_columns ?df1)"
      by (simp add: convert_mib_to_gb_def mb_pass_def)
    then show ?thesis
    proof
      assume a: "(x, (d, cs)) \<in> set ?df1 \<and> x \<notin> set (mb_columns ?df1)"
      with that(2) have "\<not> is_mb x" by (force simp: mb_columns_def)
      with e1 a that(2) show ?thesis by blast
    next
      assume "x \<in> mb_name ` set (mb_columns ?df1)"
      with h2 show ?thesis by auto
    qed
  qed
  have "filter (\<lambda>(col, (d, cs)). is_mib col \<and> is_numeric_dtype d) ?out = []"
    using e2 by (auto simp: filter_empty_conv)
  moreover have "filter (\<lambda>(col, (d, cs)). is_mb col \<and> is_numeric_dtype d) ?out = []"
    using e2 by (auto simp: filter_empty_conv)
  ultimately show ?thesis by (simp add: mib_columns_def mb_columns_def)
qed

text \<open>
  When a second run changes nothing: a frame in which neither loop selects a column is
  returned as it is, and if no derived name carries a marker again, the output of a run
  has no column that another run would select.
\<close>

lemma idempotent_without_marked_derived_names:
  "(mib_columns df = [] \<and> mb_columns df = [] \<longrightarrow> convert_mib_to_gb df = df) \<and>
   ((\<forall>c \<in> set (mib_columns df). \<not> is_mib (mib_name c)) \<and>
    (\<forall>c \<in> set (mb_columns (mib_pass df)). \<not> is_mib (mb_name c) \<and> \<not> is_mb (mb_name c)) \<longrightarrow>
      mib_columns (convert_mib_to_gb df) = [] \<and> mb_columns (convert_mib_to_gb df) = [] \<and>
      convert_mib_to_gb (convert_mib_to_gb df) = convert_mib_to_gb df)"
proof (intro conjI impI)
  assume "mib_columns df = [] \<and> mb_columns df = []"
  then show "convert_mib_to_gb df = df" by (simp add: convert_nothing_selected)
next
  assume h: "(\<forall>c \<in> set (mib_columns df). \<not> is_mib (mib_name c)) \<and>
    (\<forall>c \<in> set (mb_columns (mib_pass df)). \<not> is_mib (mb_name c) \<and> \<not> is_mb (mb_name c))"
  then have n: "mib_columns (convert_mib_to_gb df) = [] \<and> mb_columns (convert_mib_to_gb df) = []"
    by (intro nothing_left_to_convert) blast+
  then show "mib_columns (convert_mib_to_gb df) = []" "mb_columns (convert_mib_to_gb df) = []"
    by blast+
  from n show "convert_mib_to_gb (convert_mib_to_gb df) = convert_mib_to_gb df"
    by (simp add: convert_nothing_selected)
qed


section \<open>The fallback and the rule-table concatenation in general\<close>

text \<open>
  The lookup \<open>converted_df[col]\<close> in either loop never fails: a selected column is
  still present when its turn comes, since earlier iterations drop only their own
  column.
\<close>

lemma selected_column_present:
  assumes "map_of df c \<noteq> None" "c \<notin> set pre"
  shows "map_of (foldl (convert_step rn k) df pre) c \<noteq> None"
  using assms
proof (induction pre arbitrary: df)
  case Nil
  then show ?case by simp
next
  case (Cons c' pre)
  then have "map_of (convert_step rn k df c') c \<noteq> None"
    by (auto simp: map_of_convert_step split: option.splits)
  with Cons show ?case by simp
qed

lemma mib_loop_lookup_succeeds:
  assumes "distinct (columns df)" "mib_columns df = pre @ c # post"
  shows "map_of (foldl (convert_step mib_name 1024) df pre) c \<noteq> None"
proof -
  from assms(2) have "c \<in> set (mib_columns df)" by simp
  then have "map_of df c \<noteq> None" using mib_columns_subset columns_iff_map_of by blast
  moreover from distinct_mib_columns [OF assms(1)] assms(2) have "c \<notin> set pre" by auto
  ultimately show ?thesis by (rule selected_column_present)
qed

text \<open>
  What the fallback does in general: when the grouped aggregation raises, the result is
  the unit-normalized \<open>groupby(key).first()\<close> frame; no error leaves the Aggregator.
\<close>

theorem fallback_recovers:
  assumes "map_of df vm_uuid_col = Some (kd, kcs)" "\<not> df_empty df"
    and "max_count (value_counts kcs) \<noteq> Some 1" "primary_aggregation df = Inl e"
  shows "\<exists>first_records. groupby_first df vm_uuid_col = Inr first_records \<and>
           aggregate_vm_data df = convert_mib_to_gb first_records \<and>
           cells_of (aggregate_vm_data df) vm_uuid_col = group_keys kcs"
proof -
  have k: "vm_uuid_col \<in> set (columns df)" using assms(1) by (rule map_of_columns)
  have c: "cells_of df vm_uuid_col = kcs" using assms(1) by (simp add: cells_of_def)
  from groupby_first_ok [OF assms(1)] obtain cols where
    g: "groupby_first df vm_uuid_col = Inr ((vm_uuid_col, (kd, group_keys kcs)) # cols)"
    by blast
  with k c assms(2,3,4) have a: "aggregate_vm_data df =
      convert_mib_to_gb ((vm_uuid_col, (kd, group_keys kcs)) # cols)"
    by (simp add: aggregate_vm_data_def)
  then have "cells_of (aggregate_vm_data df) vm_uuid_col = group_keys kcs"
    by (simp add: cells_of_convert_key) (simp add: cells_of_def)
  with g a show ?thesis by simp
qed

theorem fallback_recovers_witness:
  "\<exists>first_records. groupby_first numeric_datastore vm_uuid_col = Inr first_records \<and>
     aggregate_vm_data numeric_datastore = convert_mib_to_gb first_records \<and>
     cells_of (aggregate_vm_data numeric_datastore) vm_uuid_col =
       group_keys [Str ''A'', Str ''A'', Str ''B'']"
proof -
  have 1: "map_of numeric_datastore vm_uuid_col = Some (Object, [Str ''A'', Str ''A'', Str ''B''])"
    "\<not> df_empty numeric_datastore"
    "max_count (value_counts [Str ''A'', Str ''A'', Str ''B'']) \<noteq> Some 1"
    "primary_aggregation numeric_datastore = Inl TypeError"
    by code_simp+
  from fallback_recovers [OF 1] show ?thesis .
qed

text \<open>
  The rule-table lambda on a group of strings and nulls: the distinct strings in
  first-seen order, joined with \<open>' | '\<close>; the empty string when there is none.
\<close>

lemma join_strings: "join sep (map Str ss) = Inr (join_with sep ss)"
  by (induction sep ss rule: join_with.induct) auto

lemma unique_map_Str: "unique (map Str ss) = map Str (unique ss)"
proof (induction ss rule: unique.induct)
  case 1
  then show ?case by simp
next
  case (2 x xs)
  have "filter (\<lambda>y. y \<noteq> Str x) (map Str xs) = map Str (filter (\<lambda>y. y \<noteq> x) xs)"
    by (induction xs) auto
  with 2 show ?case by simp
qed

lemma dropna_texts: "dropna (map text_cell xs) = map Str (texts xs)"
  by (induction xs) (auto simp: dropna_def texts_def text_cell_def split: option.splits)

theorem rule_concat_unique_joins_distinct:
  "apply_agg ConcatUnique (map text_cell xs) = Inr (Str (join_with '' | '' (unique (texts xs))))"
proof (cases "texts xs")
  case Nil
  then show ?thesis by (simp add: dropna_texts)
next
  case (Cons a list)
  then have ne: "0 < length (dropna (map text_cell xs))" by (simp add: dropna_texts)
  have "join_unique (map text_cell xs) = Inr (Str (join_with '' | '' (unique (texts xs))))"
    by (simp only: join_unique_def dropna_texts unique_map_Str join_strings sum.case)
  with ne show ?thesis by simp
qed

theorem rule_concat_unique_joins_distinct_witness:
  "apply_agg ConcatUnique [Str ''x'', Str ''x'', Str ''y'', NA] = Inr (Str ''x | y'')"
  using rule_concat_unique_joins_distinct [of "[Some ''x'', Some ''x'', Some ''y'', None]"]
  by (simp add: text_cell_def texts_def)

section \<open>Columns of the merged frame\<close>



lemma suffixed_key: "suffixed vm_uuid_col a \<Longrightarrow> a = vm_uuid_col"
  by (simp add: suffixed_def)












section \<open>Columns kept by the Output Shaper\<close>









section \<open>Base selection\<close>

text \<open>
  C4. The Merger takes as base the first category of the list \<open>cpu, info, memory, disk,
  network, tools\<close> that is present, non-empty and has the key column, whatever the
  insertion order of the map; it merges onto that base's aggregated table; and when no
  category of the list qualifies it returns the empty frame, even if other categories
  carry the key column.
\<close>

theorem base_selection_by_priority:
  "(find_base csv_data base_options = Some b \<longleftrightarrow>
      (\<exists>pre post. base_options = pre @ b # post \<and> qualifies csv_data b \<and>
         (\<forall>opt \<in> set pre. \<not> qualifies csv_data opt))) \<and>
   (find_base csv_data base_options = None \<longleftrightarrow>
      (\<forall>opt \<in> set base_options. \<not> qualifies csv_data opt)) \<and>
   (find_base csv_data base_options = None \<longrightarrow> merge_all_vm_data csv_data = []) \<and>
   (find_base csv_data base_options = Some b \<longrightarrow>
      (\<exists>base. map_of csv_data b = Some base \<and> \<not> df_empty base \<and>
         vm_uuid_col \<in> set (columns base) \<and>
         merge_all_vm_data csv_data =
           (if df_empty (aggregate_vm_data base) then []
            else fst (foldl (merge_step b) (rename_columns b (aggregate_vm_data base), 1)
                        csv_data)))) \<and>
   base_options = [''cpu'', ''info'', ''memory'', ''disk'', ''network'', ''tools'']"
proof (intro conjI impI)
  show "find_base csv_data base_options = Some b \<longleftrightarrow>
      (\<exists>pre post. base_options = pre @ b # post \<and> qualifies csv_data b \<and>
         (\<forall>opt \<in> set pre. \<not> qualifies csv_data opt))"
    by (rule find_base_Some_iff)
  show "find_base csv_data base_options = None \<longleftrightarrow>
      (\<forall>opt \<in> set base_options. \<not> qualifies csv_data opt)"
    by (rule find_base_None_iff)
  show "merge_all_vm_data csv_data = []" if "find_base csv_data base_options = None"
    using that by (simp add: merge_all_vm_data_def)
  show "\<exists>base. map_of csv_data b = Some base \<and> \<not> df_empty base \<and>
         vm_uuid_col \<in> set (columns base) \<and>
         merge_all_vm_data csv_data =
           (if df_empty (aggregate_vm_data base) then []
            else fst (foldl (merge_step b) (rename_columns b (aggregate_vm_data base), 1)
                        csv_data))"
    if s: "find_base csv_data base_options = Some b"
  proof -
    from s have q: "qualifies csv_data b" by (auto simp: find_base_Some_iff)
    then obtain base where base: "map_of csv_data b = Some base" "\<not> df_empty base"
      "vm_uuid_col \<in> set (columns base)"
      by (auto simp: qualifies_def split: option.splits)
    from base(1) have "csv_data \<noteq> []" by auto
    with s base show ?thesis by (auto simp: merge_all_vm_data_def Let_def)
  qed
  show "base_options = [''cpu'', ''info'', ''memory'', ''disk'', ''network'', ''tools'']"
    by (simp add: base_options_def)
qed

theorem base_selection_by_priority_witness:
  "merge_all_vm_data nic_only = [] \<and>
   find_base memory_then_cpu base_options = Some ''cpu'' \<and>
   qualifies memory_then_cpu ''memory'' \<and>
   (\<exists>pre post. base_options = pre @ ''cpu'' # post \<and>
      list_all (\<lambda>opt. \<not> qualifies memory_then_cpu opt) pre)"
proof -
  have n: "find_base nic_only base_options = None" by code_simp
  have c: "find_base memory_then_cpu base_options = Some ''cpu''" by code_simp
  have m: "qualifies memory_then_cpu ''memory''" by code_simp
  from base_selection_by_priority [of nic_only] n
  have 1: "merge_all_vm_data nic_only = []" by blast
  from base_selection_by_priority [of memory_then_cpu "''cpu''"] c
  have "\<exists>pre post. base_options = pre @ ''cpu'' # post \<and> qualifies memory_then_cpu ''cpu'' \<and>
         (\<forall>opt \<in> set pre. \<not> qualifies memory_then_cpu opt)" by blast
  then have 2: "\<exists>pre post. base_options = pre @ ''cpu'' # post \<and>
      list_all (\<lambda>opt. \<not> qualifies memory_then_cpu opt) pre"
    by (auto simp: list_all_iff)
  from 1 c m 2 show ?thesis by blast
qed

section \<open>Uniqueness after aggregation\<close>

text \<open>
  C1 (as amended). For every rectangular frame that has the key column, the Aggregator's
  output has at most one row per non-null key value, on every path: unchanged return,
  skip path, grouped aggregation, and the first-per-group fallback taken when the grouped
  aggregation raises. Rows whose key is null are not covered: the skip path keeps all of
  them.
\<close>

theorem aggregator_unique_non_null_keys:
  assumes "vm_uuid_col \<in> set (columns df)" "wf_table df"
  shows "distinct (dropna (cells_of (aggregate_vm_data df) vm_uuid_col)) \<and>
         (\<forall>k. k \<noteq> NA \<longrightarrow> count_list (cells_of (aggregate_vm_data df) vm_uuid_col) k \<le> 1)"
proof -
  from columns_map_of [OF assms(1)] obtain kd kcs
    where m: "map_of df vm_uuid_col = Some (kd, kcs)" by blast
  have "distinct (dropna (cells_of (aggregate_vm_data df) vm_uuid_col))"
    unfolding aggregate_key_cells [OF m assms(2)]
    by (auto simp: dropna_group_keys distinct_group_keys dropna_def)
  then show ?thesis using distinct_dropna_count by blast
qed

theorem aggregator_unique_non_null_keys_witness:
  "primary_aggregation numeric_datastore = Inl TypeError \<and>
   cells_of (aggregate_vm_data numeric_datastore) vm_uuid_col = [Str ''A'', Str ''B''] \<and>
   distinct (dropna (cells_of (aggregate_vm_data numeric_datastore) vm_uuid_col))"
proof -
  have 1: "vm_uuid_col \<in> set (columns numeric_datastore)" by code_simp
  have 2: "wf_table numeric_datastore" by code_simp
  have 3: "primary_aggregation numeric_datastore = Inl TypeError" by code_simp
  have 4: "cells_of (aggregate_vm_data numeric_datastore) vm_uuid_col = [Str ''A'', Str ''B'']"
    by code_simp
  from aggregator_unique_non_null_keys [OF 1 2] 3 4 show ?thesis by blast
qed

text \<open>
  Two rows with a null key both survive the skip path, so the output's key column is
  not duplicate-free when null counts as a key value.
\<close>

theorem null_keys_stay_duplicated:
  "vm_uuid_col \<in> set (columns two_null_keys) \<and>
   cells_of (aggregate_vm_data two_null_keys) vm_uuid_col = [Str ''u1'', NA, NA] \<and>
   \<not> distinct (cells_of (aggregate_vm_data two_null_keys) vm_uuid_col)"
  by code_simp

section \<open>The fallback of the Aggregator\<close>

text \<open>
  C3. When the grouped aggregation raises (here: the rule table gives the numeric column
  \<open>Datastore\<close> the string-joining lambda, a \<open>TypeError\<close>), the Aggregator recovers with
  \<open>groupby(key).first()\<close> and still normalizes units. \<open>first()\<close> takes the first non-null
  value of each column within the group: for key \<open>A\<close> the output row is
  \<open>(A, prod, 5)\<close>, whereas the first row observed for \<open>A\<close> is \<open>(A, null, 5)\<close>.
\<close>

theorem fallback_takes_first_non_null_per_column:
  "primary_aggregation numeric_datastore = Inl TypeError \<and>
   cells_of numeric_datastore ''Folder'' = [NA, Str ''prod'', Str ''test''] \<and>
   aggregate_vm_data numeric_datastore =
     [(''VM UUID'', (Object, [Str ''A'', Str ''B''])),
      (''Folder'', (Object, [Str ''prod'', Str ''test''])),
      (''Datastore'', (Numeric, [Num 5, Num 7]))]"
  by code_simp

theorem fallback_takes_first_non_null_per_column_witness:
  "cells_of (aggregate_vm_data numeric_datastore) ''Folder'' = [Str ''prod'', Str ''test'']"
  using fallback_takes_first_non_null_per_column by (simp add: cells_of_def)

section \<open>Concat-unique\<close>

text \<open>
  C7. The rule-table lambda joins the distinct non-null values in first-seen order:
  \<open>["x", "x", "y", null]\<close> gives \<open>"x | y"\<close> and a group without non-null values gives
  the empty string. The lambda given by default to the other text columns (line 255)
  returns \<open>x.iloc[0]\<close> when the group has exactly one non-null value: on the group
  \<open>[null, "x"]\<close> that is the null first cell, not \<open>"x"\<close>.
\<close>

theorem default_concat_unique_returns_first_cell:
  "apply_agg ConcatUnique [Str ''x'', Str ''x'', Str ''y'', NA] = Inr (Str ''x | y'') \<and>
   apply_agg ConcatUnique [NA, NA] = Inr (Str []) \<and>
   apply_agg ConcatUnique [NA, Str ''x''] = Inr (Str ''x'') \<and>
   apply_agg ConcatUniqueDefault [Str ''x'', Str ''x'', Str ''y'', NA] = Inr (Str ''x | y'') \<and>
   apply_agg ConcatUniqueDefault [NA, NA] = Inr (Str []) \<and>
   text_rule ''Folder'' = ConcatUniqueDefault \<and>
   apply_agg ConcatUniqueDefault [NA, Str ''x''] = Inr NA \<and>
   aggregate_vm_data null_then_value =
     [(''VM UUID'', (Object, [Str ''A''])), (''Folder'', (Object, [NA]))]"
  by code_simp

theorem default_concat_unique_returns_first_cell_witness:
  "cells_of (aggregate_vm_data null_then_value) ''Folder'' = [NA]"
  using default_concat_unique_returns_first_cell by (simp add: cells_of_def)

section \<open>Merge key conservation\<close>

text \<open>
  C2. With a qualifying base, the key values of the Merged Table are exactly the key
  values of the aggregated base table: the left joins add no key of another category,
  and a category that is skipped (empty, or failing to join) removes none.
\<close>

theorem merge_key_conservation:
  assumes "find_base csv_data base_options = Some base_key"
    and "map_of csv_data base_key = Some base"
    and "wf_table base"
  shows "set (cells_of (merge_all_vm_data csv_data) vm_uuid_col) =
         set (cells_of (aggregate_vm_data base) vm_uuid_col)"
proof -
  from assms(1) have "qualifies csv_data base_key" by (auto simp: find_base_Some_iff)
  with assms(2) have k: "vm_uuid_col \<in> set (columns base)" by (simp add: qualifies_def)
  from assms(2) have ne: "csv_data \<noteq> []" by auto
  show ?thesis
  proof (cases "df_empty (aggregate_vm_data base)")
    case True
    with ne assms(1,2) have "merge_all_vm_data csv_data = []"
      by (simp add: merge_all_vm_data_def)
    with empty_aggregate_no_keys [OF assms(3) k True] show ?thesis
      by (simp add: cells_of_def)
  next
    case False
    with ne assms(1,2) have "merge_all_vm_data csv_data =
      fst (foldl (merge_step base_key)
             (rename_columns base_key (aggregate_vm_data base), 1) csv_data)"
      by (simp add: merge_all_vm_data_def)
    then show ?thesis by (simp add: merge_loop_key_set cells_of_rename_key)
  qed
qed

theorem merge_key_conservation_witness:
  "cells_of (merge_all_vm_data four_sources) vm_uuid_col = [Str ''b'', Str ''a''] \<and>
   set (cells_of (aggregate_vm_data cpu_table) vm_uuid_col) = {Str ''a'', Str ''b''} \<and>
   Str ''c'' \<in> set (cells_of (aggregate_vm_data memory_table) vm_uuid_col) \<and>
   merge_left (rename_columns ''cpu'' (aggregate_vm_data cpu_table))
     (rename_columns ''extra'' [(''VM UUID'', (Numeric, [Num 1])), (''Note'', (Object, [Str ''q'']))])
     = Inl ValueError"
proof -
  have f: "find_base four_sources base_options = Some ''cpu''" by code_simp
  have m: "map_of four_sources ''cpu'' = Some cpu_table" by code_simp
  have w: "wf_table cpu_table" by code_simp
  have e: "cells_of (merge_all_vm_data four_sources) vm_uuid_col = [Str ''b'', Str ''a'']"
    by code_simp
  have c: "Str ''c'' \<in> set (cells_of (aggregate_vm_data memory_table) vm_uuid_col)"
    by code_simp
  have v: "merge_left (rename_columns ''cpu'' (aggregate_vm_data cpu_table))
     (rename_columns ''extra'' [(''VM UUID'', (Numeric, [Num 1])), (''Note'', (Object, [Str ''q'']))])
     = Inl ValueError"
    by code_simp
  from merge_key_conservation [OF f m w] e
  have "set (cells_of (aggregate_vm_data cpu_table) vm_uuid_col) = {Str ''a'', Str ''b''}"
    by auto
  with e c v show ?thesis by blast
qed

section \<open>Column order of the output\<close>




section \<open>Null keys\<close>

text \<open>
  C10 (as amended). On a frame with the key column: when some non-null key value occurs
  more than once, the Aggregator groups, its output has no row with a null key, and the
  output is the same as on the frame without its null-key rows (they contribute to no
  aggregate). When at least one non-null key exists and the non-null keys are pairwise
  different, the skip path returns the unit-normalized frame with every row, null-key
  rows included. When every key is null, the frame is grouped as well and no row is left.
\<close>

theorem null_keys_under_grouping:
  assumes "map_of df vm_uuid_col = Some (kd, kcs)" "wf_table df"
  shows "(\<not> distinct (dropna kcs) \<longrightarrow>
            NA \<notin> set (cells_of (aggregate_vm_data df) vm_uuid_col) \<and>
            aggregate_vm_data df = aggregate_vm_data (drop_null_keys df)) \<and>
         (dropna kcs \<noteq> [] \<and> distinct (dropna kcs) \<longrightarrow>
            aggregate_vm_data df = convert_mib_to_gb df \<and>
            cells_of (aggregate_vm_data df) vm_uuid_col = kcs) \<and>
         (dropna kcs = [] \<longrightarrow> cells_of (aggregate_vm_data df) vm_uuid_col = [])"
proof (intro conjI impI)
  assume d: "\<not> distinct (dropna kcs)"
  then have "dropna kcs \<noteq> []" by auto
  then have "kcs \<noteq> []" by (auto simp: dropna_def)
  then have e: "\<not> df_empty df" using nrows_pos [OF assms(2,1)] by simp
  with d show "NA \<notin> set (cells_of (aggregate_vm_data df) vm_uuid_col)"
    by (simp add: aggregate_key_cells [OF assms] NA_notin_group_keys)
  show "aggregate_vm_data df = aggregate_vm_data (drop_null_keys df)"
    using aggregate_drop_null_keys [OF assms d] by simp
next
  assume u: "dropna kcs \<noteq> [] \<and> distinct (dropna kcs)"
  then have "kcs \<noteq> []" by (auto simp: dropna_def)
  then have e: "\<not> df_empty df" using nrows_pos [OF assms(2,1)] by simp
  have k: "vm_uuid_col \<in> set (columns df)" using assms(1) by (rule map_of_columns)
  have c: "cells_of df vm_uuid_col = kcs" using assms(1) by (simp add: cells_of_def)
  have "max_count (value_counts kcs) = Some 1" using u max_count_one_iff by blast
  with e k c show "aggregate_vm_data df = convert_mib_to_gb df" by (simp add: aggregate_skip)
  from u e show "cells_of (aggregate_vm_data df) vm_uuid_col = kcs"
    by (simp add: aggregate_key_cells [OF assms])
next
  assume n: "dropna kcs = []"
  then have "group_keys kcs = []" by (simp add: group_keys_def sort_cells_def)
  with n show "cells_of (aggregate_vm_data df) vm_uuid_col = []"
    by (simp add: aggregate_key_cells [OF assms])
qed

theorem null_keys_under_grouping_witness:
  "aggregate_vm_data repeated_and_null_keys =
     [(''VM UUID'', (Object, [Str ''A''])), (''Size GB'', (Numeric, [Num 3]))] \<and>
   aggregate_vm_data repeated_and_null_keys =
     aggregate_vm_data (drop_null_keys repeated_and_null_keys) \<and>
   aggregate_vm_data two_null_keys = convert_mib_to_gb two_null_keys \<and>
   cells_of (aggregate_vm_data two_null_keys) vm_uuid_col = [Str ''u1'', NA, NA] \<and>
   cells_of (aggregate_vm_data only_null_key) vm_uuid_col = []"
proof -
  have r: "map_of repeated_and_null_keys vm_uuid_col = Some (Object, [Str ''A'', NA, Str ''A''])"
    "wf_table repeated_and_null_keys" "\<not> distinct (dropna [Str ''A'', NA, Str ''A''])"
    by code_simp+
  have t: "map_of two_null_keys vm_uuid_col = Some (Object, [Str ''u1'', NA, NA])"
    "wf_table two_null_keys"
    "dropna [Str ''u1'', NA, NA] \<noteq> [] \<and> distinct (dropna [Str ''u1'', NA, NA])"
    by code_simp+
  have n: "map_of only_null_key vm_uuid_col = Some (Numeric, [NA])"
    "wf_table only_null_key" "dropna [NA] = []"
    by code_simp+
  have v: "aggregate_vm_data repeated_and_null_keys =
     [(''VM UUID'', (Object, [Str ''A''])), (''Size GB'', (Numeric, [Num 3]))]"
    by code_simp
  from null_keys_under_grouping [OF r(1,2)] r(3)
  have 1: "aggregate_vm_data repeated_and_null_keys =
     aggregate_vm_data (drop_null_keys repeated_and_null_keys)" by blast
  from null_keys_under_grouping [OF t(1,2)] t(3)
  have 2: "aggregate_vm_data two_null_keys = convert_mib_to_gb two_null_keys \<and>
   cells_of (aggregate_vm_data two_null_keys) vm_uuid_col = [Str ''u1'', NA, NA]" by blast
  from null_keys_under_grouping [OF n(1,2)] n(3)
  have 3: "cells_of (aggregate_vm_data only_null_key) vm_uuid_col = []" by blast
  from v 1 2 3 show ?thesis by blast
qed

text \<open>
  A frame whose only row has a null key: its non-null keys are (vacuously) unique, yet
  the row does not pass through; \<open>value_counts\<close> is empty, its maximum is not 1, and
  grouping drops the row.
\<close>

theorem all_null_keys_do_not_pass_through:
  "cells_of only_null_key vm_uuid_col = [NA] \<and>
   distinct (dropna (cells_of only_null_key vm_uuid_col)) \<and>
   nrows only_null_key = 1 \<and>
   aggregate_vm_data only_null_key = [(''VM UUID'', (Numeric, [])), (''VM'', (Object, []))]"
  by code_simp

section \<open>Columns marked in lowercase only\<close>

text \<open>
  C9 (as amended). Take a frame with unique column names and a numeric column \<open>c\<close>
  that no other column has as its derived name. If the lowercase name of \<open>c\<close> contains
  \<open>mib\<close> but \<open>c\<close> itself does not contain \<open>MiB\<close> (hence none of \<open>' MiB'\<close>,
  \<open>'_MiB'\<close>, \<open>'MiB'\<close>), or the lowercase name of \<open>c\<close> contains \<open>mb\<close> and neither
  \<open>mbps\<close> nor \<open>mib\<close> and \<open>c\<close> does not contain \<open>MB\<close>, then the loop iteration for
  \<open>c\<close> writes the converted values under the name \<open>c\<close> itself and drops it: the
  iteration equals dropping the column, the output has no column \<open>c\<close>, and the whole
  output is what it would be had the column not been in the input.
\<close>

theorem lowercase_marker_column_dropped:
  assumes "distinct (columns df)" "map_of df c = Some (d, cs)" "is_numeric_dtype d"
    and "not_derived df c"
    and "(is_mib c \<and> \<not> contains ''MiB'' c) \<or> (\<not> is_mib c \<and> is_mb c \<and> \<not> contains ''MB'' c)"
  shows "c \<notin> set (columns (convert_mib_to_gb df)) \<and>
         convert_mib_to_gb df = convert_mib_to_gb (drop_column c df) \<and>
         (is_mib c \<longrightarrow> c \<in> set (mib_columns df) \<and>
            (\<forall>running. convert_step mib_name 1024 running c = drop_column c running)) \<and>
         (\<not> is_mib c \<longrightarrow> c \<in> set (mb_columns (mib_pass df)) \<and>
            (\<forall>running. convert_step mb_name 1000 running c = drop_column c running))"
proof -
  have gone: "c \<notin> set (columns (convert_mib_to_gb df))"
    using assms(2,3,4,5) by (intro marked_column_gone) auto
  show ?thesis
  proof (cases "is_mib c")
    case True
    with assms(5) have id: "mib_name c = c" by (auto simp: mib_name_id)
    from True assms(2,3) have sel: "c \<in> set (mib_columns df)" by (simp add: mib_columns_I)
    from dropped_by_mib_loop [OF assms(1) sel id assms(4)]
    have "convert_mib_to_gb df = convert_mib_to_gb (drop_column c df)"
      by (simp add: convert_mib_to_gb_def)
    with gone True sel id show ?thesis by (simp add: convert_step_drop)
  next
    case False
    with assms(5) have mb: "is_mb c" and id: "mb_name c = c" by (auto simp: mb_name_id)
    have others: "\<forall>c' \<in> set (mib_columns df). mib_name c' \<noteq> c"
      using False assms(4) mib_columns_subset mib_columns_is_mib by (metis not_derivedD(1))
    from False have "c \<notin> set (mib_columns df)" using mib_columns_is_mib by blast
    with others have "map_of (mib_pass df) c = map_of df c"
      unfolding mib_pass_def by (intro map_of_foldl_convert_frame)
    with assms(2,3) mb have sel: "c \<in> set (mb_columns (mib_pass df))"
      by (simp add: mb_columns_I)
    from dropped_by_mb_loop [OF assms(1) False sel id assms(4)]
    have "convert_mib_to_gb df = convert_mib_to_gb (drop_column c df)"
      by (simp add: convert_mib_to_gb_def)
    with gone False sel id show ?thesis by (simp add: convert_step_drop)
  qed
qed

theorem lowercase_marker_column_dropped_witness:
  "convert_mib_to_gb lowercase_markers =
     [(''VM UUID'', (Object, [Str ''u1''])), (''Free GB'', (Numeric, [Num 1]))] \<and>
   ''Size mib'' \<notin> set (columns (convert_mib_to_gb lowercase_markers)) \<and>
   ''Number of CPUs'' \<notin> set (columns (convert_mib_to_gb lowercase_markers)) \<and>
   convert_mib_to_gb lowercase_markers =
     convert_mib_to_gb (drop_column ''Number of CPUs'' lowercase_markers)"
proof -
  have d: "distinct (columns lowercase_markers)" by code_simp
  have s: "map_of lowercase_markers ''Size mib'' = Some (Numeric, [Num 2048])"
    "is_numeric_dtype Numeric" "not_derived lowercase_markers ''Size mib''"
    "(is_mib ''Size mib'' \<and> \<not> contains ''MiB'' ''Size mib'') \<or>
     (\<not> is_mib ''Size mib'' \<and> is_mb ''Size mib'' \<and> \<not> contains ''MB'' ''Size mib'')"
    by code_simp+
  have n: "map_of lowercase_markers ''Number of CPUs'' = Some (Numeric, [Num 4])"
    "not_derived lowercase_markers ''Number of CPUs''"
    "(is_mib ''Number of CPUs'' \<and> \<not> contains ''MiB'' ''Number of CPUs'') \<or>
     (\<not> is_mib ''Number of CPUs'' \<and> is_mb ''Number of CPUs'' \<and>
      \<not> contains ''MB'' ''Number of CPUs'')"
    by code_simp+
  have v: "convert_mib_to_gb lowercase_markers =
     [(''VM UUID'', (Object, [Str ''u1''])), (''Free GB'', (Numeric, [Num 1]))]"
    by code_simp
  from lowercase_marker_column_dropped [OF d s(1,2,3,4)]
  have 1: "''Size mib'' \<notin> set (columns (convert_mib_to_gb lowercase_markers))" by blast
  from lowercase_marker_column_dropped [OF d n(1) s(2) n(2,3)]
  have 2: "''Number of CPUs'' \<notin> set (columns (convert_mib_to_gb lowercase_markers)) \<and>
    convert_mib_to_gb lowercase_markers =
     convert_mib_to_gb (drop_column ''Number of CPUs'' lowercase_markers)" by blast
  from v 1 2 show ?thesis by blast
qed

text \<open>
  Without the condition on derived names the column name can come back: \<open>Number GB\<close>
  is marked in lowercase only and is dropped by its iteration, but the later iteration
  for \<open>Number MB\<close> derives the same name, so the output has a column \<open>Number GB\<close>
  (holding the values of \<open>Number MB\<close>). And a column marked \<open>mb\<close> in lowercase only
  that also carries \<open>MiB\<close> is not written back under its own name: the mebibyte loop
  renames it first.
\<close>

theorem marked_name_derived_by_other_column:
  "is_mb ''Number GB'' \<and> \<not> is_mib ''Number GB'' \<and> \<not> contains ''MB'' ''Number GB'' \<and>
   convert_mib_to_gb
     [(''VM UUID'', (Object, [Str ''u1''])), (''Number GB'', (Numeric, [Num 5000])),
      (''Number MB'', (Numeric, [Num 2500]))] =
     [(''VM UUID'', (Object, [Str ''u1''])), (''Number GB'', (Numeric, [Num (5 / 2)]))] \<and>
   is_mb ''mb MiB'' \<and> \<not> contains ''MB'' ''mb MiB'' \<and>
   mib_pass [(''VM UUID'', (Object, [Str ''u1''])), (''mb MiB'', (Numeric, [Num 2048]))] =
     [(''VM UUID'', (Object, [Str ''u1''])), (''mb GB'', (Numeric, [Num 2]))]"
  by code_simp

section \<open>What the Unit Normalizer converts\<close>



section \<open>Running the Unit Normalizer twice\<close>

text \<open>
  C6. Running the Unit Normalizer on its own output is not a no-op in general. Both
  loops select by a case-insensitive test on the whole name and rename by a
  case-sensitive replacement, so the output of one run can hold a numeric column that
  the next run selects again: whenever the output has a numeric column \<open>n\<close> whose
  lowercase name contains \<open>mib\<close>, or \<open>mb\<close> without \<open>mbps\<close>, and \<open>n\<close> is not the
  derived name of another output column, the second run removes the column \<open>n\<close> and
  so returns a different frame. The gigabyte column \<open>Number GB\<close> made from
  \<open>Number MB\<close> is such a column (\<open>number\<close> contains \<open>mb\<close>): the second run finds
  nothing to rename in it and deletes it with its values, where the function is
  documented to convert the marked columns and rename them.
\<close>

theorem second_run_removes_marked_output_column:
  assumes "map_of (convert_mib_to_gb df) n = Some (d, cs)" "is_numeric_dtype d"
    and "is_mib n \<or> is_mb n" "not_derived (convert_mib_to_gb df) n"
  shows "n \<in> set (columns (convert_mib_to_gb df)) \<and>
         n \<notin> set (columns (convert_mib_to_gb (convert_mib_to_gb df))) \<and>
         convert_mib_to_gb (convert_mib_to_gb df) \<noteq> convert_mib_to_gb df"
proof -
  have 1: "n \<in> set (columns (convert_mib_to_gb df))"
    using assms(1) by (rule map_of_columns)
  have 2: "n \<notin> set (columns (convert_mib_to_gb (convert_mib_to_gb df)))"
    using assms by (rule marked_column_gone)
  from 1 2 show ?thesis by auto
qed

theorem second_run_removes_marked_output_column_witness:
  "convert_mib_to_gb number_mb =
     [(''VM UUID'', (Object, [Str ''u1''])), (''Number GB'', (Numeric, [Num (5 / 2)]))] \<and>
   convert_mib_to_gb (convert_mib_to_gb number_mb) = [(''VM UUID'', (Object, [Str ''u1'']))] \<and>
   ''Number GB'' \<in> set (columns (convert_mib_to_gb number_mb)) \<and>
   ''Number GB'' \<notin> set (columns (convert_mib_to_gb (convert_mib_to_gb number_mb))) \<and>
   convert_mib_to_gb (convert_mib_to_gb number_mb) \<noteq> convert_mib_to_gb number_mb"
proof -
  have a: "map_of (convert_mib_to_gb number_mb) ''Number GB'' = Some (Numeric, [Num (5 / 2)])"
    "is_numeric_dtype Numeric" "is_mib ''Number GB'' \<or> is_mb ''Number GB''"
    "not_derived (convert_mib_to_gb number_mb) ''Number GB''"
    by code_simp+
  have v: "convert_mib_to_gb number_mb =
     [(''VM UUID'', (Object, [Str ''u1''])), (''Number GB'', (Numeric, [Num (5 / 2)]))]"
    "convert_mib_to_gb (convert_mib_to_gb number_mb) = [(''VM UUID'', (Object, [Str ''u1'']))]"
    by code_simp+
  from second_run_removes_marked_output_column [OF a] v show ?thesis by blast
qed

end
